theory Spec2Isabelle
  imports Complex_Main
begin

section \<open>Chunked file upload: the browser service and the node server\<close>

text \<open>
  The development follows three source files: the request/response variant of
  \<^verbatim>\<open>file-upload-service.ts\<close> (the first half of the file), its web-socket variant
  (the second half) and \<^verbatim>\<open>node-file-upload-server.ts\<close>.

  JavaScript numbers that hold sizes and offsets are modelled as \<open>int\<close>. Library
  functions that are not part of the repository (base64 coding, URI and path
  arithmetic, the random token of an upload) are parameters of the functions that
  use them.
\<close>

subsection \<open>Errors\<close>

text \<open>
  \<open>Cancelled\<close> is what \<^verbatim>\<open>checkCancelled\<close> throws, \<open>NothingToRead\<close> is
  \<^verbatim>\<open>new Error('nothing to read')\<close>, \<open>DoesNotExist id\<close> is
  \<^verbatim>\<open>new Error(`upload '${id}' does not exist`)\<close>; \<open>External msg\<close> stands for an error
  raised outside the repository's code (a \<^verbatim>\<open>FileReader\<close> error, a transport or
  server-side failure reported back to the client).
\<close>

datatype error = Cancelled | NothingToRead | DoesNotExist string | External string

subsection \<open>Files and slices\<close>

text \<open>A browser \<^verbatim>\<open>File\<close>: a name and an immutable byte sequence.\<close>

record 'b File =
  name :: string
  bytes :: "'b list"

definition file_size :: "'b File \<Rightarrow> int" where
  "file_size f = int (length (bytes f))"

text \<open>
  \<^verbatim>\<open>Blob.slice(start, end)\<close> as the File API defines it: a negative position counts
  from the end, positions are clamped to the blob, and the span is never negative.
\<close>

definition blob_slice :: "'b list \<Rightarrow> int \<Rightarrow> int \<Rightarrow> 'b list" where
  "blob_slice bs start end =
     (let sz = int (length bs);
          relativeStart = (if start < 0 then max (sz + start) 0 else min start sz);
          relativeEnd = (if end < 0 then max (sz + end) 0 else min end sz);
          span = max (relativeEnd - relativeStart) 0
      in take (nat span) (drop (nat relativeStart) bs))"

definition maxChunkSize :: int where
  "maxChunkSize = 64 * 1024"

text \<open>What \<^verbatim>\<open>readFileSlice\<close> resolves with.\<close>

record 'c FileSlice =
  content :: 'c
  read :: int

text \<open>
  \<^verbatim>\<open>readFileSlice\<close> of the request/response variant. \<open>enc\<close> is
  \<^verbatim>\<open>base64.fromByteArray\<close>; \<open>reader_error\<close> is the outcome of the \<^verbatim>\<open>FileReader\<close>
  (\<open>None\<close> when \<^verbatim>\<open>onload\<close> fires, \<open>Some e\<close> when \<^verbatim>\<open>onerror\<close> does).
\<close>

definition readFileSlice ::
  "('b list \<Rightarrow> string) \<Rightarrow> error option \<Rightarrow> 'b File \<Rightarrow> int \<Rightarrow> error + string FileSlice" where
  "readFileSlice enc reader_error file rd =
     (if file_size file = 0 \<and> rd = 0 then Inr \<lparr>content = [], read = rd\<rparr>
      else
        let bytesLeft = file_size file - rd in
        if bytesLeft = 0 then Inl NothingToRead
        else
          let size = min maxChunkSize bytesLeft;
              slice = blob_slice (bytes file) rd (rd + size)
          in (case reader_error of
                Some e \<Rightarrow> Inl e
              | None \<Rightarrow> Inr \<lparr>content = enc slice, read = rd + size\<rparr>))"

text \<open>
  \<^verbatim>\<open>readFileSlice\<close> of the web-socket variant: no special case for the empty
  file, and the content is the raw buffer.
\<close>

definition ws_readFileSlice ::
  "error option \<Rightarrow> 'b File \<Rightarrow> int \<Rightarrow> error + ('b list) FileSlice" where
  "ws_readFileSlice reader_error file rd =
     (let bytesLeft = file_size file - rd in
      if bytesLeft = 0 then Inl NothingToRead
      else
        let size = min maxChunkSize bytesLeft;
            slice = blob_slice (bytes file) rd (rd + size)
        in (case reader_error of
              Some e \<Rightarrow> Inl e
            | None \<Rightarrow> Inr \<lparr>content = slice, read = rd + size\<rparr>))"

text \<open>
  The read loop of \<^verbatim>\<open>doUpload\<close> with everything but the reads removed:
  \<^verbatim>\<open>do { slice = await readFileSlice(file, readBytes); readBytes = slice.read }
  while (readBytes < file.size)\<close>, collecting the contents. Every read succeeds
  unless \<^verbatim>\<open>readFileSlice\<close> itself rejects.
\<close>

function readSlices :: "('b list \<Rightarrow> string) \<Rightarrow> 'b File \<Rightarrow> int \<Rightarrow> error + string list" where
  "readSlices enc file readBytes =
     (case readFileSlice enc None file readBytes of
        Inl e \<Rightarrow> Inl e
      | Inr fileSlice \<Rightarrow>
          if read fileSlice < file_size file
          then (case readSlices enc file (read fileSlice) of
                  Inl e \<Rightarrow> Inl e
                | Inr cs \<Rightarrow> Inr (content fileSlice # cs))
          else Inr [content fileSlice])"
  by pat_completeness auto

lemma readFileSlice_advances:
  assumes "readFileSlice enc re file rd = Inr sl" and "read sl < file_size file"
  shows "rd < read sl"
proof -
  have nz: "file_size file - rd \<noteq> 0"
    using assms by (auto simp: readFileSlice_def Let_def split: if_splits)
  have rd: "read sl = rd + min maxChunkSize (file_size file - rd)"
    using assms nz by (auto simp: readFileSlice_def Let_def split: if_splits option.splits)
  show ?thesis
    using assms(2) rd nz by (auto simp: maxChunkSize_def min_def split: if_splits)
qed

termination readSlices
proof (relation "measure (\<lambda>(enc, file, rd). nat (file_size file - rd))", goal_cases)
  case 1
  show ?case by simp
next
  case (2 enc f readBytes sl)
  then show ?case
    using readFileSlice_advances [of enc None f readBytes sl] by simp
qed

declare readSlices.simps [simp del]

subsection \<open>The upload context\<close>

record ('u, 'b) UploadEntry =
  entry_file :: "'b File"
  entry_uri :: 'u

text \<open>
  \<^verbatim>\<open>FileUploadService.Context\<close>. The cancellation token is what the program sees
  each time it looks at it: the \<open>n\<close>-th look (counting from \<open>0\<close>) reads
  \<open>token n\<close>, and \<open>polls\<close> counts the looks made so far. The progress sink is
  the \<open>Report\<close> events of the trace below.
\<close>

record ('u, 'b) Context =
  totalSize :: int
  entries :: "('u, 'b) UploadEntry list"
  token :: "nat \<Rightarrow> bool"
  polls :: nat

record 'u FileUploadResult =
  uploaded :: "'u list"


subsection \<open>Indexing\<close>

text \<open>
  What the browser hands over. A \<^verbatim>\<open>WebKitFileEntry\<close> yields its \<^verbatim>\<open>File\<close> or fails
  when asked for it; a \<^verbatim>\<open>WebKitDirectoryEntry\<close> has a name and a reader that returns
  its children in batches and, after them, either an empty batch or (\<open>Some e\<close>) an
  error. \<^verbatim>\<open>webkitGetAsEntry()\<close> and \<^verbatim>\<open>files[i]\<close> may be \<^verbatim>\<open>null\<close>.
\<close>

datatype 'b WebKitEntry =
    WebKitFileEntry "error + 'b File"
  | WebKitDirectoryEntry string "'b WebKitEntry list list" "error option"

record 'b DataTransfer =
  items :: "'b WebKitEntry option list option"
  files_of :: "'b File option list"

text \<open>\<^verbatim>\<open>checkCancelled(context.token)\<close>, and a plain look at
  \<^verbatim>\<open>context.token.isCancellationRequested\<close>.\<close>

definition look :: "('u, 'b) Context \<Rightarrow> bool \<times> ('u, 'b) Context" where
  "look c = (token c (polls c), c\<lparr>polls := Suc (polls c)\<rparr>)"

definition checkCancelledC :: "('u, 'b) Context \<Rightarrow> (error + unit) \<times> ('u, 'b) Context" where
  "checkCancelledC c = (case look c of (True, c') \<Rightarrow> (Inl Cancelled, c') | (False, c') \<Rightarrow> (Inr (), c'))"

text \<open>\<open>resolve\<close> is \<^verbatim>\<open>URI.resolve\<close>.\<close>

definition indexFile ::
  "('u \<Rightarrow> string \<Rightarrow> 'u) \<Rightarrow> 'u \<Rightarrow> 'b File \<Rightarrow> ('u, 'b) Context \<Rightarrow> ('u, 'b) Context" where
  "indexFile resolve targetUri f c =
     c\<lparr>entries := entries c @ [\<lparr>entry_file = f, entry_uri = resolve targetUri (name f)\<rparr>],
       totalSize := totalSize c + file_size f\<rparr>"

fun indexFileList ::
  "('u \<Rightarrow> string \<Rightarrow> 'u) \<Rightarrow> 'u \<Rightarrow> 'b File option list \<Rightarrow> ('u, 'b) Context \<Rightarrow> ('u, 'b) Context" where
  "indexFileList resolve targetUri [] c = c"
| "indexFileList resolve targetUri (None # fs) c = indexFileList resolve targetUri fs c"
| "indexFileList resolve targetUri (Some f # fs) c =
     indexFileList resolve targetUri fs (indexFile resolve targetUri f c)"

text \<open>\<^verbatim>\<open>await Promise.all(promises)\<close> over promises that have all run: the first
  rejection, if there is one.\<close>

fun all_settled :: "(error + unit) list \<Rightarrow> error + unit" where
  "all_settled [] = Inr ()"
| "all_settled (Inl e # rs) = Inl e"
| "all_settled (Inr _ # rs) = all_settled rs"

text \<open>\<^verbatim>\<open>indexFileEntry\<close>: \<^verbatim>\<open>entry.file\<close> calls back with the file or with an error.\<close>

definition indexFileEntry ::
  "('u \<Rightarrow> string \<Rightarrow> 'u) \<Rightarrow> 'u \<Rightarrow> error + 'b File \<Rightarrow> ('u, 'b) Context
     \<Rightarrow> (error + unit) \<times> ('u, 'b) Context" where
  "indexFileEntry resolve targetUri r c =
     (case r of
        Inl e \<Rightarrow> (Inl e, c)
      | Inr f \<Rightarrow> (Inr (), indexFile resolve targetUri f c))"

text \<open>
  The recursive walk. Every started promise runs to its end whatever happens to its
  siblings; they are run here one after the other, in the order they are started.
  \<open>indexEntry'\<close> is \<^verbatim>\<open>indexEntry\<close> on an entry that is not \<^verbatim>\<open>null\<close>;
  \<open>indexEach\<close> is the loop that starts \<^verbatim>\<open>indexEntry\<close> on every element of an
  array; \<open>readEntries\<close> returns the outcome of the read loop and the outcomes of the
  \<^verbatim>\<open>indexEntries\<close> promises its callback pushed.
\<close>

function (sequential) indexEntry' ::
    "('u \<Rightarrow> string \<Rightarrow> 'u) \<Rightarrow> 'u \<Rightarrow> 'b WebKitEntry \<Rightarrow> ('u, 'b) Context
       \<Rightarrow> (error + unit) \<times> ('u, 'b) Context"
  and indexDirectoryEntry ::
    "('u \<Rightarrow> string \<Rightarrow> 'u) \<Rightarrow> 'u \<Rightarrow> string \<Rightarrow> 'b WebKitEntry list list \<Rightarrow> error option
       \<Rightarrow> ('u, 'b) Context \<Rightarrow> (error + unit) \<times> ('u, 'b) Context"
  and indexEach ::
    "('u \<Rightarrow> string \<Rightarrow> 'u) \<Rightarrow> 'u \<Rightarrow> 'b WebKitEntry list \<Rightarrow> ('u, 'b) Context
       \<Rightarrow> (error + unit) list \<times> ('u, 'b) Context"
  and indexEntries ::
    "('u \<Rightarrow> string \<Rightarrow> 'u) \<Rightarrow> 'u \<Rightarrow> 'b WebKitEntry list \<Rightarrow> ('u, 'b) Context
       \<Rightarrow> (error + unit) \<times> ('u, 'b) Context"
  and readEntries ::
    "('u \<Rightarrow> string \<Rightarrow> 'u) \<Rightarrow> 'u \<Rightarrow> 'b WebKitEntry list list \<Rightarrow> error option \<Rightarrow> ('u, 'b) Context
       \<Rightarrow> (error + unit) \<times> (error + unit) list \<times> ('u, 'b) Context"
where
  "indexEntry' resolve targetUri (WebKitFileEntry r) c =
     (case checkCancelledC c of
        (Inl e, c1) \<Rightarrow> (Inl e, c1)
      | (Inr _, c1) \<Rightarrow> indexFileEntry resolve targetUri r c1)"
| "indexEntry' resolve targetUri (WebKitDirectoryEntry nm batches err) c =
     (case checkCancelledC c of
        (Inl e, c1) \<Rightarrow> (Inl e, c1)
      | (Inr _, c1) \<Rightarrow> indexDirectoryEntry resolve targetUri nm batches err c1)"
| "indexDirectoryEntry resolve targetUri nm batches err c =
     (case checkCancelledC c of
        (Inl e, c1) \<Rightarrow> (Inl e, c1)
      | (Inr _, c1) \<Rightarrow>
          (case readEntries resolve (resolve targetUri nm) batches err c1 of
             (Inl e, rs, c2) \<Rightarrow> (Inl e, c2)
           | (Inr _, rs, c2) \<Rightarrow> (all_settled rs, c2)))"
| "indexEach resolve targetUri [] c = ([], c)"
| "indexEach resolve targetUri (entry # rest) c =
     (case indexEntry' resolve targetUri entry c of
        (r, c1) \<Rightarrow>
          (case indexEach resolve targetUri rest c1 of
             (rs, c2) \<Rightarrow> (r # rs, c2)))"
| "indexEntries resolve targetUri es c =
     (case checkCancelledC c of
        (Inl e, c1) \<Rightarrow> (Inl e, c1)
      | (Inr _, c1) \<Rightarrow>
          (case indexEach resolve targetUri es c1 of
             (rs, c2) \<Rightarrow> (all_settled rs, c2)))"
| "readEntries resolve targetUri [] err c =
     (case err of
        Some e \<Rightarrow> (Inl e, [], c)
      | None \<Rightarrow> (Inr (), [], snd (look c)))"
| "readEntries resolve targetUri (results # later) err c =
     (case look c of
        (cancelled, c1) \<Rightarrow>
          if \<not> cancelled \<and> results \<noteq> [] then
            (case indexEntries resolve targetUri results c1 of
               (r1, c2) \<Rightarrow>
                 (case readEntries resolve targetUri later err c2 of
                    (r, rs, c3) \<Rightarrow> (r, r1 # rs, c3)))
          else (Inr (), [], c1))"
  by pat_completeness auto

termination
  by (relation "measure (\<lambda>x. case x of
        Inl (Inl (resolve, t, e, c)) \<Rightarrow> 2 * size e
      | Inl (Inr (resolve, t, nm, bs, err, c)) \<Rightarrow> 2 * size_list (size_list size) bs + 1
      | Inr (Inl (resolve, t, es, c)) \<Rightarrow> 2 * size_list size es
      | Inr (Inr (Inl (resolve, t, es, c))) \<Rightarrow> 2 * size_list size es + 1
      | Inr (Inr (Inr (resolve, t, bs, err, c))) \<Rightarrow> 2 * size_list (size_list size) bs)")
    simp_all

text \<open>\<^verbatim>\<open>indexEntry\<close>, whose argument may be \<^verbatim>\<open>null\<close>.\<close>

definition indexEntry ::
  "('u \<Rightarrow> string \<Rightarrow> 'u) \<Rightarrow> 'u \<Rightarrow> 'b WebKitEntry option \<Rightarrow> ('u, 'b) Context
     \<Rightarrow> (error + unit) \<times> ('u, 'b) Context" where
  "indexEntry resolve targetUri entry c =
     (case entry of
        None \<Rightarrow> checkCancelledC c
      | Some e \<Rightarrow> indexEntry' resolve targetUri e c)"

fun indexItems ::
  "('u \<Rightarrow> string \<Rightarrow> 'u) \<Rightarrow> 'u \<Rightarrow> 'b WebKitEntry option list \<Rightarrow> ('u, 'b) Context
     \<Rightarrow> (error + unit) list \<times> ('u, 'b) Context" where
  "indexItems resolve targetUri [] c = ([], c)"
| "indexItems resolve targetUri (entry # rest) c =
     (case indexEntry resolve targetUri entry c of
        (r, c1) \<Rightarrow>
          (case indexItems resolve targetUri rest c1 of
             (rs, c2) \<Rightarrow> (r # rs, c2)))"

definition indexDataTransferItemList ::
  "('u \<Rightarrow> string \<Rightarrow> 'u) \<Rightarrow> 'u \<Rightarrow> 'b WebKitEntry option list \<Rightarrow> ('u, 'b) Context
     \<Rightarrow> (error + unit) \<times> ('u, 'b) Context" where
  "indexDataTransferItemList resolve targetUri its c =
     (case checkCancelledC c of
        (Inl e, c1) \<Rightarrow> (Inl e, c1)
      | (Inr _, c1) \<Rightarrow>
          (case indexItems resolve targetUri its c1 of
             (rs, c2) \<Rightarrow> (all_settled rs, c2)))"

definition indexDataTransfer ::
  "('u \<Rightarrow> string \<Rightarrow> 'u) \<Rightarrow> 'u \<Rightarrow> 'b DataTransfer \<Rightarrow> ('u, 'b) Context
     \<Rightarrow> (error + unit) \<times> ('u, 'b) Context" where
  "indexDataTransfer resolve targetUri dataTransfer c =
     (case checkCancelledC c of
        (Inl e, c1) \<Rightarrow> (Inl e, c1)
      | (Inr _, c1) \<Rightarrow>
          (case items dataTransfer of
             Some its \<Rightarrow> indexDataTransferItemList resolve targetUri its c1
           | None \<Rightarrow> (Inr (), indexFileList resolve targetUri (files_of dataTransfer) c1)))"

text \<open>A sequence of indexing calls on one context; what each call returns or throws
  is dropped, the context is kept.\<close>

datatype ('u, 'b) index_call =
    IndexFile 'u "'b File"
  | IndexFileList 'u "'b File option list"
  | IndexEntry 'u "'b WebKitEntry option"
  | IndexDataTransfer 'u "'b DataTransfer"

fun run_call ::
  "('u \<Rightarrow> string \<Rightarrow> 'u) \<Rightarrow> ('u, 'b) index_call \<Rightarrow> ('u, 'b) Context \<Rightarrow> ('u, 'b) Context" where
  "run_call resolve (IndexFile t f) c = indexFile resolve t f c"
| "run_call resolve (IndexFileList t fs) c = indexFileList resolve t fs c"
| "run_call resolve (IndexEntry t e) c = snd (indexEntry resolve t e c)"
| "run_call resolve (IndexDataTransfer t d) c = snd (indexDataTransfer resolve t d c)"

definition run_calls ::
  "('u \<Rightarrow> string \<Rightarrow> 'u) \<Rightarrow> ('u, 'b) index_call list \<Rightarrow> ('u, 'b) Context \<Rightarrow> ('u, 'b) Context" where
  "run_calls resolve calls c = fold (run_call resolve) calls c"

text \<open>
  The destinations a call may add, each paired with its file: the target of the call,
  resolved with the names of the directories that lead to the file, resolved with the
  file's name.
\<close>

fun entry_dests :: "('u \<Rightarrow> string \<Rightarrow> 'u) \<Rightarrow> 'u \<Rightarrow> 'b WebKitEntry \<Rightarrow> ('u \<times> 'b File) set" where
  "entry_dests resolve t (WebKitFileEntry r) =
     (case r of Inl e \<Rightarrow> {} | Inr f \<Rightarrow> {(resolve t (name f), f)})"
| "entry_dests resolve t (WebKitDirectoryEntry nm batches err) =
     (\<Union>b \<in> set batches. \<Union>e \<in> set b. entry_dests resolve (resolve t nm) e)"

definition list_dests :: "('u \<Rightarrow> string \<Rightarrow> 'u) \<Rightarrow> 'u \<Rightarrow> 'b File option list \<Rightarrow> ('u \<times> 'b File) set" where
  "list_dests resolve t fs =
     (\<Union>x \<in> set fs. case x of None \<Rightarrow> {} | Some f \<Rightarrow> {(resolve t (name f), f)})"

fun call_dests :: "('u \<Rightarrow> string \<Rightarrow> 'u) \<Rightarrow> ('u, 'b) index_call \<Rightarrow> ('u \<times> 'b File) set" where
  "call_dests resolve (IndexFile t f) = {(resolve t (name f), f)}"
| "call_dests resolve (IndexFileList t fs) = list_dests resolve t fs"
| "call_dests resolve (IndexEntry t e) =
     (case e of None \<Rightarrow> {} | Some x \<Rightarrow> entry_dests resolve t x)"
| "call_dests resolve (IndexDataTransfer t d) =
     (case items d of
        Some its \<Rightarrow> (\<Union>x \<in> set its. case x of None \<Rightarrow> {} | Some y \<Rightarrow> entry_dests resolve t y)
      | None \<Rightarrow> list_dests resolve t (files_of d))"

subsection \<open>The upload session of the request/response variant\<close>

text \<open>What \<^verbatim>\<open>doUpload\<close> does that the outside can see, in order.\<close>

datatype 'u event =
    Report int int
  | ReadSlice int
  | SendOpen 'u string bool
  | Opened string
  | SendAppend string string bool
  | AppendFailed error
  | SendClose string

text \<open>
  A promise pushed onto \<^verbatim>\<open>promises\<close>: the server's answer to the append
  (\<open>None\<close> for success), the \<^verbatim>\<open>fileSlice.read\<close> its handler reports, and whether
  the handler has run.
\<close>

datatype settled = Pending | Fulfilled | RejectedWith error

record promise =
  reply :: "error option"
  slice_read :: int
  state :: settled

text \<open>
  The world around one \<^verbatim>\<open>doUpload\<close> call. The code runs on one event loop, so
  nothing reaches it except while it waits in an \<^verbatim>\<open>await\<close>. Everything is indexed by
  the number of \<^verbatim>\<open>await\<close>s begun before: the acknowledgements of appends that arrive
  during an \<^verbatim>\<open>await\<close>, in their order of arrival (each names a position in
  \<^verbatim>\<open>promises\<close>; one that names no pending promise is ignored), the outcome of the
  \<^verbatim>\<open>FileReader\<close>, the server's answer to \<^verbatim>\<open>open\<close>, and its answer to an
  \<^verbatim>\<open>append\<close> sent at that time.
\<close>

record world =
  arrivals :: "nat \<Rightarrow> nat list"
  reader_error :: "nat \<Rightarrow> error option"
  open_reply :: "nat \<Rightarrow> error + string"
  append_reply :: "nat \<Rightarrow> error option"

text \<open>
  The variables of \<^verbatim>\<open>doUpload\<close> (\<open>doneBytes\<close> is \<^verbatim>\<open>done\<close>, \<open>cur_id\<close> is
  \<^verbatim>\<open>id\<close>), the number of \<^verbatim>\<open>await\<close>s begun (\<open>clock\<close>), the number of looks at
  the token (\<open>looks\<close>) and the trace.
\<close>

record 'u session =
  clock :: nat
  looks :: nat
  trace :: "'u event list"
  doneBytes :: int
  cur_id :: "string option"
  readBytes :: int
  someAppendFailed :: "error option"
  promises :: "promise list"

text \<open>
  An acknowledgement reaches the handlers of \<^verbatim>\<open>append(...).then(ok, failed)\<close>:
  \<^verbatim>\<open>ok\<close> checks the token and reports progress, \<^verbatim>\<open>failed\<close> stores the error in
  \<^verbatim>\<open>someAppendFailed\<close> and rethrows it.
\<close>

definition deliver :: "(nat \<Rightarrow> bool) \<Rightarrow> int \<Rightarrow> nat \<Rightarrow> 'u session \<Rightarrow> 'u session" where
  "deliver tok totl k st =
     (if k < length (promises st) \<and> state (promises st ! k) = Pending then
        (let p = promises st ! k in
         case reply p of
           None \<Rightarrow>
             (if tok (looks st)
              then st\<lparr>looks := Suc (looks st),
                     promises := (promises st)[k := p\<lparr>state := RejectedWith Cancelled\<rparr>]\<rparr>
              else st\<lparr>looks := Suc (looks st),
                     trace := trace st @ [Report (doneBytes st + slice_read p) totl],
                     promises := (promises st)[k := p\<lparr>state := Fulfilled\<rparr>]\<rparr>)
         | Some e \<Rightarrow>
             st\<lparr>someAppendFailed := Some e,
                trace := trace st @ [AppendFailed e],
                promises := (promises st)[k := p\<lparr>state := RejectedWith e\<rparr>]\<rparr>)
      else st)"

text \<open>An \<^verbatim>\<open>await\<close> of something other than the appends: everything that arrives
  meanwhile is handled, then the program goes on.\<close>

definition await :: "world \<Rightarrow> (nat \<Rightarrow> bool) \<Rightarrow> int \<Rightarrow> 'u session \<Rightarrow> 'u session" where
  "await w tok totl st =
     (fold (deliver tok totl) (arrivals w (clock st)) st)\<lparr>clock := Suc (clock st)\<rparr>"

text \<open>\<^verbatim>\<open>checkCancelled(token)\<close>.\<close>

definition checkCancelled :: "(nat \<Rightarrow> bool) \<Rightarrow> 'u session \<Rightarrow> (error + unit) \<times> 'u session" where
  "checkCancelled tok st =
     (if tok (looks st) then Inl Cancelled else Inr (), st\<lparr>looks := Suc (looks st)\<rparr>)"

text \<open>
  One pass through the body of the \<^verbatim>\<open>do ... while\<close> loop. The result is the thrown
  error, or whether \<^verbatim>\<open>readBytes < file.size\<close> holds at the end of the pass.
\<close>

definition iteration ::
  "('b list \<Rightarrow> string) \<Rightarrow> world \<Rightarrow> (nat \<Rightarrow> bool) \<Rightarrow> int \<Rightarrow> ('u, 'b) UploadEntry \<Rightarrow> 'u session
     \<Rightarrow> (error + bool) \<times> 'u session" where
  "iteration enc w tok totl entry st0 =
     (let st1 = await w tok totl (st0\<lparr>trace := trace st0 @ [ReadSlice (readBytes st0)]\<rparr>) in
      case readFileSlice enc (reader_error w (clock st0)) (entry_file entry) (readBytes st0) of
        Inl e \<Rightarrow> (Inl e, st1)
      | Inr fileSlice \<Rightarrow>
         (case someAppendFailed st1 of
            Some e \<Rightarrow> (Inl e, st1)
          | None \<Rightarrow>
             (case checkCancelled tok st1 of
                (Inl e, st2) \<Rightarrow> (Inl e, st2)
              | (Inr _, st2) \<Rightarrow>
                 (let st3 = st2\<lparr>readBytes := read fileSlice\<rparr>;
                      last_chunk = (file_size (entry_file entry) \<le> readBytes st3)
                  in case cur_id st3 of
                       None \<Rightarrow>
                         (let st4 = await w tok totl
                                (st3\<lparr>trace := trace st3 @
                                   [SendOpen (entry_uri entry) (content fileSlice) last_chunk]\<rparr>)
                          in case open_reply w (clock st3) of
                               Inl e \<Rightarrow> (Inl e, st4)
                             | Inr i \<Rightarrow>
                                (case checkCancelled tok
                                        (st4\<lparr>cur_id := Some i, trace := trace st4 @ [Opened i]\<rparr>) of
                                   (Inl e, st5) \<Rightarrow> (Inl e, st5)
                                 | (Inr _, st5) \<Rightarrow>
                                    (Inr (readBytes st5 < file_size (entry_file entry)),
                                     st5\<lparr>trace := trace st5 @
                                       [Report (doneBytes st5 + read fileSlice) totl]\<rparr>)))
                     | Some i \<Rightarrow>
                         (Inr (readBytes st3 < file_size (entry_file entry)),
                          st3\<lparr>trace := trace st3 @ [SendAppend i (content fileSlice) last_chunk],
                              promises := promises st3 @
                                [\<lparr>reply = append_reply w (clock st3),
                                  slice_read = read fileSlice, state = Pending\<rparr>]\<rparr>)))))"

function transfer ::
  "('b list \<Rightarrow> string) \<Rightarrow> world \<Rightarrow> (nat \<Rightarrow> bool) \<Rightarrow> int \<Rightarrow> ('u, 'b) UploadEntry \<Rightarrow> 'u session
     \<Rightarrow> (error + unit) \<times> 'u session" where
  "transfer enc w tok totl entry st =
     (case iteration enc w tok totl entry st of
        (Inl e, st') \<Rightarrow> (Inl e, st')
      | (Inr again, st') \<Rightarrow>
          if again then transfer enc w tok totl entry st' else (Inr (), st'))"
  by pat_completeness auto

lemma readBytes_deliver [simp]: "readBytes (deliver tok totl k st) = readBytes st"
  by (simp add: deliver_def Let_def split: option.splits)

lemma readBytes_fold_deliver [simp]:
  "readBytes (fold (deliver tok totl) ks st) = readBytes st"
  by (induction ks arbitrary: st) simp_all

lemma readBytes_await [simp]: "readBytes (await w tok totl st) = readBytes st"
  by (simp add: await_def)

lemma iteration_advances:
  assumes "iteration enc w tok totl entry st = (Inr True, st')"
  shows "readBytes st < readBytes st' \<and> readBytes st' < file_size (entry_file entry)"
  using assms readFileSlice_advances [of enc "reader_error w (clock st)" "entry_file entry" "readBytes st"]
  by (auto simp: iteration_def checkCancelled_def Let_def
      split: sum.splits option.splits if_splits prod.splits)

termination transfer
proof (relation "measure (\<lambda>(enc, w, tok, totl, entry, st).
          nat (file_size (entry_file entry) - readBytes st))", goal_cases)
  case 1
  show ?case by simp
next
  case (2 enc w tok totl entry st x st' again)
  then show ?case
    using iteration_advances [of enc w tok totl entry st st'] by simp
qed

text \<open>
  \<^verbatim>\<open>await Promise.all(promises)\<close>. A promise already rejected rejects the whole (the
  first one in the array when there are several); when every promise is fulfilled the
  program goes on; otherwise the next acknowledgement is awaited. \<open>ks\<close> is
  everything that will ever arrive: when it is used up with a promise still pending,
  the \<^verbatim>\<open>await\<close> never returns (\<open>None\<close>).
\<close>

fun first_rejected :: "promise list \<Rightarrow> error option" where
  "first_rejected [] = None"
| "first_rejected (p # ps) =
     (case state p of RejectedWith e \<Rightarrow> Some e | _ \<Rightarrow> first_rejected ps)"

fun await_all ::
  "(nat \<Rightarrow> bool) \<Rightarrow> int \<Rightarrow> nat list \<Rightarrow> 'u session \<Rightarrow> (error + unit) option \<times> 'u session" where
  "await_all tok totl [] st =
     (case first_rejected (promises st) of
        Some e \<Rightarrow> (Some (Inl e), st)
      | None \<Rightarrow>
          if list_all (\<lambda>p. state p = Fulfilled) (promises st) then (Some (Inr ()), st)
          else (None, st))"
| "await_all tok totl (k # ks) st =
     (case first_rejected (promises st) of
        Some e \<Rightarrow> (Some (Inl e), st)
      | None \<Rightarrow>
          if list_all (\<lambda>p. state p = Fulfilled) (promises st) then (Some (Inr ()), st)
          else await_all tok totl ks (deliver tok totl k st))"

text \<open>
  One pass through the body of \<^verbatim>\<open>for (const entry of entries)\<close>: the report, the
  \<^verbatim>\<open>try\<close> block (the loop \<open>transfer\<close>, \<^verbatim>\<open>Promise.all\<close>, the update of
  \<^verbatim>\<open>done\<close>) and the \<^verbatim>\<open>finally\<close> block. \<open>None\<close>: the pass never ends, because
  an acknowledgement never arrives. \<open>uploadEntries\<close> is the \<^verbatim>\<open>for\<close> loop: it stops
  at the first pass that throws.
\<close>

definition try_block ::
  "('b list \<Rightarrow> string) \<Rightarrow> world \<Rightarrow> (nat \<Rightarrow> bool) \<Rightarrow> int \<Rightarrow> ('u, 'b) UploadEntry \<Rightarrow> 'u session
     \<Rightarrow> (error + unit) option \<times> 'u session" where
  "try_block enc w tok totl entry st =
     (case transfer enc w tok totl entry st of
        (Inl e, st1) \<Rightarrow> (Some (Inl e), st1)
      | (Inr _, st1) \<Rightarrow>
          (case await_all tok totl (arrivals w (clock st1)) st1 of
             (Some (Inr _), st2) \<Rightarrow>
               (Some (Inr ()),
                st2\<lparr>clock := Suc (clock st2),
                    doneBytes := doneBytes st2 + file_size (entry_file entry),
                    trace := trace st2 @
                      [Report (doneBytes st2 + file_size (entry_file entry)) totl]\<rparr>)
           | (r, st2) \<Rightarrow> (r, st2\<lparr>clock := Suc (clock st2)\<rparr>)))"

definition uploadEntry ::
  "('b list \<Rightarrow> string) \<Rightarrow> world \<Rightarrow> (nat \<Rightarrow> bool) \<Rightarrow> int \<Rightarrow> ('u, 'b) UploadEntry \<Rightarrow> 'u session
     \<Rightarrow> (error + unit) option \<times> 'u session" where
  "uploadEntry enc w tok totl entry st0 =
     (case try_block enc w tok totl entry
             (st0\<lparr>trace := trace st0 @ [Report (doneBytes st0) totl],
                  cur_id := None, readBytes := 0, someAppendFailed := None, promises := []\<rparr>) of
        (None, st1) \<Rightarrow> (None, st1)
      | (Some r, st1) \<Rightarrow>
          (Some r,
           case cur_id st1 of
             Some i \<Rightarrow> st1\<lparr>trace := trace st1 @ [SendClose i]\<rparr>
           | None \<Rightarrow> st1))"

fun uploadEntries ::
  "('b list \<Rightarrow> string) \<Rightarrow> world \<Rightarrow> (nat \<Rightarrow> bool) \<Rightarrow> int \<Rightarrow> ('u, 'b) UploadEntry list \<Rightarrow> 'u session
     \<Rightarrow> (error + unit) option \<times> 'u session" where
  "uploadEntries enc w tok totl [] st = (Some (Inr ()), st)"
| "uploadEntries enc w tok totl (entry # rest) st =
     (case uploadEntry enc w tok totl entry st of
        (Some (Inr _), st') \<Rightarrow> uploadEntries enc w tok totl rest st'
      | (r, st') \<Rightarrow> (r, st'))"

datatype 'r outcome = Resolved 'r | Rejected error | Unsettled

text \<open>The session when \<^verbatim>\<open>doUpload\<close> starts: \<^verbatim>\<open>done = 0\<close>, nothing sent yet.\<close>

definition initial_session :: "('u, 'b) Context \<Rightarrow> 'u session" where
  "initial_session ctx =
     \<lparr>clock = 0, looks = polls ctx, trace = [], doneBytes = 0, cur_id = None,
      readBytes = 0, someAppendFailed = None, promises = []\<rparr>"

definition doUpload ::
  "('b list \<Rightarrow> string) \<Rightarrow> world \<Rightarrow> ('u, 'b) Context
     \<Rightarrow> 'u FileUploadResult outcome \<times> 'u event list" where
  "doUpload enc w ctx =
     (let result = \<lparr>uploaded = []\<rparr> in
      if entries ctx = [] then (Resolved result, [])
      else
        let totl = totalSize ctx
        in case uploadEntries enc w (token ctx) totl (entries ctx) (initial_session ctx) of
             (Some (Inr _), st) \<Rightarrow> (Resolved result, trace st @ [Report totl totl])
           | (Some (Inl e), st) \<Rightarrow> (Rejected e, trace st)
           | (None, st) \<Rightarrow> (Unsettled, trace st))"


declare transfer.simps [simp del]

subsection \<open>The node server\<close>

text \<open>
  The library functions the server calls: \<^verbatim>\<open>FileUri.fsPath\<close>, \<^verbatim>\<open>path.dirname\<close>,
  \<^verbatim>\<open>path.join\<close> and the base64 decoding that \<^verbatim>\<open>fs.outputFile\<close> and
  \<^verbatim>\<open>fs.appendFile\<close> apply to the content they are given.
\<close>

record 'b NodeLib =
  fsPath_of :: "string \<Rightarrow> string"
  dirname :: "string \<Rightarrow> string"
  join :: "string \<Rightarrow> string \<Rightarrow> string"
  base64 :: "string \<Rightarrow> 'b list"

text \<open>
  A \<^verbatim>\<open>NodeFileUpload\<close>. The first three fields are \<^verbatim>\<open>readonly\<close>. \<open>renamed\<close>
  records the assignment \<^verbatim>\<open>this.dispose = () => Promise.resolve()\<close> that
  \<^verbatim>\<open>rename\<close> makes once \<^verbatim>\<open>fs.move\<close> has succeeded: from then on \<^verbatim>\<open>dispose\<close>
  does nothing.
\<close>

record NodeFileUpload =
  upload_id :: string
  uploadPath :: string
  fsPath :: string
  renamed :: bool

text \<open>
  An upload object is shared by the registry, by the \<^verbatim>\<open>toDispose\<close> collection and by
  the handlers that hold it in a local variable while they wait, so the objects live
  in a store: \<open>objects\<close> lists every \<^verbatim>\<open>NodeFileUpload\<close> constructed so far and
  an object is named by its position in that list. What the server pushes onto
  \<^verbatim>\<open>toDispose\<close> is an upload, or the deletion of an id from the registry.
\<close>

datatype disposable = DisposeUpload nat | DeleteUpload string

text \<open>
  The calls of the \<^verbatim>\<open>fs\<close> library. Node runs such a call outside the JavaScript
  thread: the call returns a promise at once, the disk changes at some later moment,
  and the promise settles later still. A call is taken to change the disk in one
  indivisible step, or to fail and leave the disk as it was (the library is not part
  of the repository). \<open>fs_effect\<close> is what a call does when nothing outside the
  program makes it fail: \<^verbatim>\<open>outputFile\<close> creates or truncates the file,
  \<^verbatim>\<open>appendFile\<close> creates the file when it does not exist, \<^verbatim>\<open>move\<close> with
  \<^verbatim>\<open>overwrite: true\<close> and \<^verbatim>\<open>unlink\<close> fail when there is no source file.
\<close>

datatype 'b fs_call =
    OutputFile string "'b list"
  | AppendFile string "'b list"
  | Move string string
  | Unlink string

fun fs_effect :: "'b fs_call \<Rightarrow> (string \<rightharpoonup> 'b list) \<Rightarrow> string + (string \<rightharpoonup> 'b list)" where
  "fs_effect (OutputFile p c) fs = Inr (fs(p \<mapsto> c))"
| "fs_effect (AppendFile p c) fs =
     Inr (fs(p \<mapsto> (case fs p of None \<Rightarrow> [] | Some old \<Rightarrow> old) @ c))"
| "fs_effect (Move src dst) fs =
     (case fs src of
        None \<Rightarrow> Inl ''ENOENT''
      | Some c \<Rightarrow> Inr ((fs(src := None))(dst \<mapsto> c)))"
| "fs_effect (Unlink p) fs =
     (case fs p of
        None \<Rightarrow> Inl ''ENOENT''
      | Some c \<Rightarrow> Inr (fs(p := None)))"

text \<open>What a request resolves with: \<^verbatim>\<open>open\<close> with the id of the upload,
  \<^verbatim>\<open>append\<close> and \<^verbatim>\<open>close\<close> with nothing.\<close>

datatype response = UploadId string | Void

text \<open>
  The code that waits for a call of the \<^verbatim>\<open>fs\<close> library and runs on when the promise
  of the call settles:

  \<^item> \<open>Written r done v\<close>: \<^verbatim>\<open>open\<close> at \<^verbatim>\<open>await upload.create(content)\<close> or
    \<^verbatim>\<open>append\<close> at \<^verbatim>\<open>await upload.append(content)\<close>, for the object \<open>r\<close>, with
    the done flag of the request and with what the request returns in the end;

  \<^item> \<open>Moved r v\<close>: the same handlers at \<^verbatim>\<open>await upload.rename()\<close>, inside
    \<^verbatim>\<open>rename\<close> at \<^verbatim>\<open>await fs.move(...)\<close>;

  \<^item> \<open>Swallowed\<close>: nobody. \<^verbatim>\<open>dispose\<close> does not await the promise of its
    \<^verbatim>\<open>fs.unlink\<close> and catches its rejection with \<^verbatim>\<open>() => {}\<close>.

  A task is a call in flight: started and still to take effect, or completed (with the
  error code it failed with, if it failed) and still to be delivered to the code that
  waits for it.
\<close>

datatype cont =
    Written nat bool response
  | Moved nat response
  | Swallowed

datatype 'b task = Started "'b fs_call" cont | Completed "string option" cont

text \<open>
  The server object together with the disk it writes to: \<open>files\<close> maps a path to
  the content of the file there, \<open>tasks\<close> are the calls in flight.
  \<^verbatim>\<open>toDispose\<close> is only read by the server's own \<^verbatim>\<open>dispose\<close>, which no request
  calls.
\<close>

record 'b Server =
  toDispose :: "disposable list"
  uploads :: "string \<rightharpoonup> nat"
  objects :: "NodeFileUpload list"
  files :: "string \<rightharpoonup> 'b list"
  tasks :: "'b task list"

text \<open>Starting a call of the \<^verbatim>\<open>fs\<close> library with the code that waits for it.\<close>

definition start :: "'b fs_call \<Rightarrow> cont \<Rightarrow> 'b Server \<Rightarrow> 'b Server" where
  "start call k s = s\<lparr>tasks := tasks s @ [Started call k]\<rparr>"

text \<open>The constructor; \<open>rnd\<close> is \<^verbatim>\<open>crypto.randomBytes(16).toString('hex')\<close>.\<close>

definition new_NodeFileUpload :: "'b NodeLib \<Rightarrow> string \<Rightarrow> string \<Rightarrow> NodeFileUpload" where
  "new_NodeFileUpload L rnd p =
     \<lparr>upload_id = ''upload_'' @ rnd,
      uploadPath = join L (dirname L p) (''upload_'' @ rnd),
      fsPath = p,
      renamed = False\<rparr>"

text \<open>
  The methods of the upload \<open>r\<close> up to their \<^verbatim>\<open>await\<close>; \<open>k\<close> is the code that
  waits. \<open>upload_renamed\<close> is the rest of \<^verbatim>\<open>rename\<close>, run when \<^verbatim>\<open>fs.move\<close> has
  succeeded. \<^verbatim>\<open>dispose\<close> starts the \<^verbatim>\<open>fs.unlink\<close> and returns without waiting
  for it.
\<close>

definition upload_create :: "'b NodeLib \<Rightarrow> nat \<Rightarrow> string \<Rightarrow> cont \<Rightarrow> 'b Server \<Rightarrow> 'b Server" where
  "upload_create L r c k s = start (OutputFile (uploadPath (objects s ! r)) (base64 L c)) k s"

definition upload_append :: "'b NodeLib \<Rightarrow> nat \<Rightarrow> string \<Rightarrow> cont \<Rightarrow> 'b Server \<Rightarrow> 'b Server" where
  "upload_append L r c k s = start (AppendFile (uploadPath (objects s ! r)) (base64 L c)) k s"

definition upload_rename :: "nat \<Rightarrow> cont \<Rightarrow> 'b Server \<Rightarrow> 'b Server" where
  "upload_rename r k s =
     start (Move (uploadPath (objects s ! r)) (fsPath (objects s ! r))) k s"

definition upload_renamed :: "nat \<Rightarrow> 'b Server \<Rightarrow> 'b Server" where
  "upload_renamed r s = s\<lparr>objects := (objects s)[r := (objects s ! r)\<lparr>renamed := True\<rparr>]\<rparr>"

definition upload_dispose :: "nat \<Rightarrow> 'b Server \<Rightarrow> 'b Server" where
  "upload_dispose r s =
     (if renamed (objects s ! r) then s
      else start (Unlink (uploadPath (objects s ! r))) Swallowed s)"

text \<open>
  The handlers, from their first statement to their first \<^verbatim>\<open>await\<close>. The first
  component of the result is the settlement of the promise of the request when the
  handler settles it in this stretch, \<open>None\<close> when the handler is suspended.
  \<^verbatim>\<open>close\<close> has no \<^verbatim>\<open>await\<close> and returns at once; \<^verbatim>\<open>append\<close> on an unknown
  id throws before it starts anything.
\<close>

definition srv_close :: "string \<Rightarrow> 'b Server \<Rightarrow> (error + response) option \<times> 'b Server" where
  "srv_close i s =
     (case uploads s i of
        Some r \<Rightarrow> (Some (Inr Void), upload_dispose r s)
      | None \<Rightarrow> (Some (Inr Void), s))"

definition srv_open ::
  "'b NodeLib \<Rightarrow> string \<Rightarrow> string \<Rightarrow> string \<Rightarrow> bool \<Rightarrow> 'b Server
     \<Rightarrow> (error + response) option \<times> 'b Server" where
  "srv_open L rnd uri c done s =
     (let upload = new_NodeFileUpload L rnd (fsPath_of L uri);
          r = length (objects s);
          s0 = s\<lparr>objects := objects s @ [upload]\<rparr>;
          s1 = s0\<lparr>toDispose := toDispose s0 @ [DisposeUpload r]\<rparr>;
          s2 = s1\<lparr>uploads := (uploads s1)(upload_id upload \<mapsto> r)\<rparr>;
          s3 = s2\<lparr>toDispose := toDispose s2 @ [DeleteUpload (upload_id upload)]\<rparr>
      in (None, upload_create L r c (Written r done (UploadId (upload_id upload))) s3))"

definition srv_append ::
  "'b NodeLib \<Rightarrow> string \<Rightarrow> string \<Rightarrow> bool \<Rightarrow> 'b Server
     \<Rightarrow> (error + response) option \<times> 'b Server" where
  "srv_append L i c done s =
     (case uploads s i of
        None \<Rightarrow> (Some (Inl (DoesNotExist i)), s)
      | Some r \<Rightarrow> (None, upload_append L r c (Written r done Void) s))"

text \<open>
  The handlers from an \<^verbatim>\<open>await\<close> on, given how the awaited call has settled. A
  rejected \<^verbatim>\<open>create\<close>, \<^verbatim>\<open>append\<close> or \<^verbatim>\<open>rename\<close> rejects the request and skips
  the rest of the handler. After the write, \<^verbatim>\<open>if (done)\<close> starts the rename, otherwise
  the handler returns. After the move, \<^verbatim>\<open>rename\<close> replaces \<^verbatim>\<open>dispose\<close>, the
  handler calls \<^verbatim>\<open>this.close(upload.id)\<close>, which looks the id up in the registry,
  and returns; between these statements the handler only awaits promises that are
  already settled.
\<close>

fun continue :: "cont \<Rightarrow> string option \<Rightarrow> 'b Server \<Rightarrow> (error + response) option \<times> 'b Server" where
  "continue (Written r done v) (Some code) s = (Some (Inl (External code)), s)"
| "continue (Written r done v) None s =
     (if done then (None, upload_rename r (Moved r v) s) else (Some (Inr v), s))"
| "continue (Moved r v) (Some code) s = (Some (Inl (External code)), s)"
| "continue (Moved r v) None s =
     (let s1 = upload_renamed r s
      in (Some (Inr v), snd (srv_close (upload_id (objects s1 ! r)) s1)))"
| "continue Swallowed res s = (None, s)"

text \<open>The three requests; \<open>Open\<close> carries the random token its upload will get.\<close>

datatype request = Open string string string bool | Append string string bool | Close string

fun dispatch :: "'b NodeLib \<Rightarrow> request \<Rightarrow> 'b Server \<Rightarrow> (error + response) option \<times> 'b Server" where
  "dispatch L (Open rnd uri c d) s = srv_open L rnd uri c d s"
| "dispatch L (Append i c d) s = srv_append L i c d s"
| "dispatch L (Close i) s = srv_close i s"

text \<open>
  The call in flight at position \<open>k\<close> takes effect. \<open>fail\<close> is the error code when
  something outside the program makes the call fail (a full disk, a missing
  permission, a destination that is a directory).
\<close>

definition disk :: "nat \<Rightarrow> string option \<Rightarrow> 'b Server \<Rightarrow> 'b Server" where
  "disk k fail s =
     (if k < length (tasks s) then
        (case tasks s ! k of
           Started call c \<Rightarrow>
             (case fail of
                Some code \<Rightarrow> s\<lparr>tasks := (tasks s)[k := Completed (Some code) c]\<rparr>
              | None \<Rightarrow>
                  (case fs_effect call (files s) of
                     Inl code \<Rightarrow> s\<lparr>tasks := (tasks s)[k := Completed (Some code) c]\<rparr>
                   | Inr fs \<Rightarrow> s\<lparr>files := fs, tasks := (tasks s)[k := Completed None c]\<rparr>))
         | Completed res c \<Rightarrow> s)
      else s)"

text \<open>The completed call at position \<open>k\<close> is delivered to the code that waits for it.\<close>

definition resume :: "nat \<Rightarrow> 'b Server \<Rightarrow> (error + response) option \<times> 'b Server" where
  "resume k s =
     (if k < length (tasks s) then
        (case tasks s ! k of
           Completed res c \<Rightarrow>
             continue c res (s\<lparr>tasks := take k (tasks s) @ drop (Suc k) (tasks s)\<rparr>)
         | Started call c \<Rightarrow> (None, s))
      else (None, s))"

text \<open>
  One turn of the server: a request arrives and its handler runs to its first
  \<^verbatim>\<open>await\<close>, a call in flight takes effect on the disk, or a completed call is
  delivered and the handler that waits for it runs to its next \<^verbatim>\<open>await\<close> or to its
  end. The turns of different requests interleave in any order: a run of the server
  follows an arbitrary list of them.
\<close>

datatype label = Arrives request | Disk nat "string option" | Resumes nat

fun step :: "'b NodeLib \<Rightarrow> label \<Rightarrow> 'b Server \<Rightarrow> (error + response) option \<times> 'b Server" where
  "step L (Arrives q) s = dispatch L q s"
| "step L (Disk k fail) s = (None, disk k fail s)"
| "step L (Resumes k) s = resume k s"

definition run :: "'b NodeLib \<Rightarrow> label list \<Rightarrow> 'b Server \<Rightarrow> 'b Server" where
  "run L ls s = fold (\<lambda>l s. snd (step L l s)) ls s"

text \<open>A server with no upload, on an empty disk, and library functions to run examples with.\<close>

definition empty_server :: "'b Server" where
  "empty_server =
     \<lparr>toDispose = [], uploads = Map.empty, objects = [], files = Map.empty, tasks = []\<rparr>"

definition plain_lib :: "char NodeLib" where
  "plain_lib = \<lparr>fsPath_of = (\<lambda>uri. uri), dirname = (\<lambda>p. ''/d''),
     join = (\<lambda>a b. a @ ''/'' @ b), base64 = (\<lambda>c. c)\<rparr>"


subsection \<open>Vocabulary of the theorems\<close>

text \<open>
  An event is quiet when it is neither a read nor a call that carries data to the
  server: a progress report, an acknowledged failure, a \<^verbatim>\<open>close\<close>.
\<close>

fun quiet :: "'u event \<Rightarrow> bool" where
  "quiet (Report a b) = True"
| "quiet (AppendFailed e) = True"
| "quiet (SendClose i) = True"
| "quiet (ReadSlice n) = False"
| "quiet (SendOpen u c d) = False"
| "quiet (Opened i) = False"
| "quiet (SendAppend i c d) = False"

fun last_failure :: "'u event list \<Rightarrow> error option" where
  "last_failure [] = None"
| "last_failure (ev # evs) =
     (case last_failure evs of
        Some e \<Rightarrow> Some e
      | None \<Rightarrow> (case ev of AppendFailed e \<Rightarrow> Some e | _ \<Rightarrow> None))"

text \<open>
  \<open>step_ok\<close>: what a stretch of the transfer of one entry adds to the trace, and
  how \<^verbatim>\<open>id\<close> follows the \<open>Opened\<close> events. \<open>throw_ok\<close>: what the trace of a
  stretch that ends in a throw looks like.
\<close>

definition step_ok ::
  "world \<Rightarrow> 'u session \<Rightarrow> 'u session \<Rightarrow> 'u event list \<Rightarrow> bool" where
  "step_ok w st st' evs \<longleftrightarrow>
     trace st' = trace st @ evs
     \<and> doneBytes st' = doneBytes st
     \<and> (cur_id st' = None \<longrightarrow> promises st' = [])
     \<and> (case cur_id st of
          None \<Rightarrow> (\<forall>i. (Opened i \<in> set evs) = (cur_id st' = Some i))
        | Some j \<Rightarrow> cur_id st' = Some j \<and> (\<forall>i. Opened i \<notin> set evs))"

definition throw_ok :: "world \<Rightarrow> error \<Rightarrow> 'u event list \<Rightarrow> bool" where
  "throw_ok w e evs \<longleftrightarrow>
     (\<exists>a b. evs = a @ b \<and> last_failure a = None \<and> list_all quiet b)
     \<and> (last_failure evs \<noteq> None \<longrightarrow>
           last_failure evs = Some e \<or> (\<exists>t. reader_error w t = Some e))"

text \<open>\<open>grows D c c'\<close>: \<open>c'\<close> is \<open>c\<close> with entries added, every one of them in
  \<open>D\<close>, and with their sizes added to \<^verbatim>\<open>totalSize\<close>.\<close>

definition grows :: "('u \<times> 'b File) set \<Rightarrow> ('u, 'b) Context \<Rightarrow> ('u, 'b) Context \<Rightarrow> bool" where
  "grows D c c' \<longleftrightarrow>
     (\<exists>new. entries c' = entries c @ new
        \<and> totalSize c' = totalSize c + sum_list (map (\<lambda>x. file_size (entry_file x)) new)
        \<and> (\<forall>x \<in> set new. (entry_uri x, entry_file x) \<in> D))"

text \<open>
  The registry is in order when every id leads to an object of the store that carries
  this id. The tasks are in order when the code that waits names an object of the
  store, when every write and every unlink in flight addresses the temporary path of
  an object of the store, and when every move in flight goes from the temporary path
  of an object to the destination of the same object and is awaited inside
  \<^verbatim>\<open>rename\<close> of that object.
\<close>

definition registry_ok :: "'b Server \<Rightarrow> bool" where
  "registry_ok s \<longleftrightarrow>
     (\<forall>i r. uploads s i = Some r \<longrightarrow> r < length (objects s) \<and> upload_id (objects s ! r) = i)"

fun cont_ok :: "NodeFileUpload list \<Rightarrow> cont \<Rightarrow> bool" where
  "cont_ok os (Written r d v) = (r < length os)"
| "cont_ok os (Moved r v) = (r < length os)"
| "cont_ok os Swallowed = True"

fun call_ok :: "NodeFileUpload list \<Rightarrow> 'b fs_call \<Rightarrow> cont \<Rightarrow> bool" where
  "call_ok os (Move src dst) (Moved r v) = (src = uploadPath (os ! r) \<and> dst = fsPath (os ! r))"
| "call_ok os (Move src dst) k = False"
| "call_ok os (OutputFile p c) k = (p \<in> uploadPath ` set os)"
| "call_ok os (AppendFile p c) k = (p \<in> uploadPath ` set os)"
| "call_ok os (Unlink p) k = (p \<in> uploadPath ` set os)"

fun task_ok :: "NodeFileUpload list \<Rightarrow> 'b task \<Rightarrow> bool" where
  "task_ok os (Started call k) = (call_ok os call k \<and> cont_ok os k)"
| "task_ok os (Completed res k) = cont_ok os k"

definition tasks_ok :: "'b Server \<Rightarrow> bool" where
  "tasks_ok s = list_all (task_ok (objects s)) (tasks s)"

text \<open>\<open>same_objects os os'\<close>: the store \<open>os'\<close> holds the objects of \<open>os\<close> at the
  same positions, with the same id and paths, and renamed if they were.\<close>

definition same_objects :: "NodeFileUpload list \<Rightarrow> NodeFileUpload list \<Rightarrow> bool" where
  "same_objects os os' \<longleftrightarrow>
     length os \<le> length os'
     \<and> (\<forall>r < length os. upload_id (os' ! r) = upload_id (os ! r)
            \<and> uploadPath (os' ! r) = uploadPath (os ! r)
            \<and> fsPath (os' ! r) = fsPath (os ! r)
            \<and> (renamed (os ! r) \<longrightarrow> renamed (os' ! r)))"

text \<open>
  Whether a turn is the arrival of a request that carries the done flag; whether a
  task belongs to a request that carries it; whether a task is a move still to take
  effect, and how many of these there are.
\<close>

fun carries_done :: "label \<Rightarrow> bool" where
  "carries_done (Arrives (Open rnd uri c d)) = d"
| "carries_done (Arrives (Append i c d)) = d"
| "carries_done (Arrives (Close i)) = False"
| "carries_done (Disk k fail) = False"
| "carries_done (Resumes k) = False"

fun finalizing_cont :: "cont \<Rightarrow> bool" where
  "finalizing_cont (Written r d v) = d"
| "finalizing_cont (Moved r v) = True"
| "finalizing_cont Swallowed = False"

fun finalizing :: "'b task \<Rightarrow> bool" where
  "finalizing (Started call k) = finalizing_cont k"
| "finalizing (Completed res k) = finalizing_cont k"

fun is_move :: "'b task \<Rightarrow> bool" where
  "is_move (Started (Move src dst) k) = True"
| "is_move t = False"


subsection \<open>Example values\<close>

definition slash :: "string \<Rightarrow> string \<Rightarrow> string" where
  "slash u n = u @ ''/'' @ n"

definition empty_txt :: "char File" where
  "empty_txt = \<lparr>name = ''empty.txt'', bytes = []\<rparr>"

definition a_txt :: "char File" where
  "a_txt = \<lparr>name = ''a.txt'', bytes = ''abc''\<rparr>"

definition b_txt :: "char File" where
  "b_txt = \<lparr>name = ''b.txt'', bytes = ''de''\<rparr>"


text \<open>A coding that leaves the bytes as they are, a token that is never cancelled, and
  a token that is found cancelled at the second look and at no other.\<close>

definition plain :: "char list \<Rightarrow> string" where
  "plain b = b"

definition never :: "nat \<Rightarrow> bool" where
  "never n = False"

definition at_second_look :: "nat \<Rightarrow> bool" where
  "at_second_look n = (n = 1)"

text \<open>The context after indexing one file, and after indexing \<open>a_txt\<close> and
  \<open>b_txt\<close>.\<close>

definition single :: "char File \<Rightarrow> string \<Rightarrow> (string, char) Context" where
  "single f u =
     \<lparr>totalSize = file_size f, entries = [\<lparr>entry_file = f, entry_uri = u\<rparr>],
      token = never, polls = 0\<rparr>"

definition a_then_b :: "(string, char) Context" where
  "a_then_b =
     \<lparr>totalSize = 5,
      entries = [\<lparr>entry_file = a_txt, entry_uri = ''/d/a.txt''\<rparr>,
                 \<lparr>entry_file = b_txt, entry_uri = ''/d/b.txt''\<rparr>],
      token = at_second_look, polls = 0\<rparr>"

text \<open>A dropped directory \<open>d\<close> that holds \<open>b_txt\<close>.\<close>

definition dir_d :: "char WebKitEntry" where
  "dir_d = WebKitDirectoryEntry ''d'' [[WebKitFileEntry (Inr b_txt)]] None"

text \<open>A world in which nothing goes wrong: every read and every call succeeds, the
  server names the upload \<open>''upload_00''\<close>, acknowledgements arrive in order
  (at most four appends are in flight in the examples).\<close>

definition calm :: world where
  "calm = \<lparr>arrivals = (\<lambda>n. [0, 1, 2, 3]), reader_error = (\<lambda>n. None),
     open_reply = (\<lambda>n. Inr ''upload_00''), append_reply = (\<lambda>n. None)\<rparr>"




text \<open>
  States of the server. In \<open>staged\<close>, \<^verbatim>\<open>open(uri, 'abc', false)\<close> has returned;
  in \<open>two_chunks\<close>, \<^verbatim>\<open>open(uri, 'ab', false)\<close> and then
  \<^verbatim>\<open>append(id, 'cd', false)\<close> have. From \<open>two_chunks\<close>,
  \<^verbatim>\<open>append(id, 'ef', true)\<close> has written its chunk in \<open>last_written\<close> and has
  started the rename in \<open>rename_started\<close>. \<^verbatim>\<open>open(uri, 'abc', true)\<close> has failed
  to write in \<open>create_failed\<close>, has moved the file in \<open>rename_done\<close>, and has
  returned in \<open>finalized\<close>.
\<close>

definition upload_00 :: NodeFileUpload where
  "upload_00 = \<lparr>upload_id = ''upload_00'', uploadPath = ''/d/upload_00'',
     fsPath = ''/d/a.txt'', renamed = False\<rparr>"

definition staged :: "char Server" where
  "staged = run plain_lib
     [Arrives (Open ''00'' ''/d/a.txt'' ''abc'' False), Disk 0 None, Resumes 0] empty_server"

definition two_chunks :: "char Server" where
  "two_chunks = run plain_lib
     [Arrives (Open ''00'' ''/d/a.txt'' ''ab'' False), Disk 0 None, Resumes 0,
      Arrives (Append ''upload_00'' ''cd'' False), Disk 0 None, Resumes 0] empty_server"

definition last_written :: "char Server" where
  "last_written = run plain_lib
     [Arrives (Append ''upload_00'' ''ef'' True), Disk 0 None] two_chunks"

definition rename_started :: "char Server" where
  "rename_started = run plain_lib [Resumes 0] last_written"

definition create_failed :: "char Server" where
  "create_failed = run plain_lib
     [Arrives (Open ''00'' ''/d/a.txt'' ''abc'' True), Disk 0 (Some ''ENOSPC'')] empty_server"

definition rename_done :: "char Server" where
  "rename_done = run plain_lib
     [Arrives (Open ''00'' ''/d/a.txt'' ''abc'' True), Disk 0 None, Resumes 0,
      Disk 0 None] empty_server"

definition finalized :: "char Server" where
  "finalized = run plain_lib
     [Arrives (Open ''00'' ''/d/a.txt'' ''abc'' True), Disk 0 None, Resumes 0,
      Disk 0 None, Resumes 0] empty_server"


section \<open>The chunked reader\<close>

lemma blob_slice_inside:
  assumes "0 \<le> a" "a \<le> b" "b \<le> int (length bs)"
  shows "blob_slice bs a b = take (nat (b - a)) (drop (nat a) bs)"
  using assms by (simp add: blob_slice_def Let_def min_def max_def)

lemma readFileSlice_inside:
  assumes "0 \<le> rd" "rd < file_size f"
  shows "readFileSlice enc None f rd =
    Inr \<lparr>content = enc (take (nat (min maxChunkSize (file_size f - rd))) (drop (nat rd) (bytes f))),
         read = rd + min maxChunkSize (file_size f - rd)\<rparr>"
proof -
  have "blob_slice (bytes f) rd (rd + min maxChunkSize (file_size f - rd))
      = take (nat (min maxChunkSize (file_size f - rd))) (drop (nat rd) (bytes f))"
    using assms blob_slice_inside [of rd "rd + min maxChunkSize (file_size f - rd)" "bytes f"]
    by (simp add: file_size_def maxChunkSize_def min_def split: if_splits)
  then show ?thesis
    using assms by (simp add: readFileSlice_def Let_def)
qed
lemma readSlices_chunks:
  assumes "0 \<le> rd" "rd < file_size f"
  shows "\<exists>chunks. readSlices enc f rd = Inr (map enc chunks)
      \<and> concat chunks = drop (nat rd) (bytes f)
      \<and> int (length chunks) = (file_size f - rd + (maxChunkSize - 1)) div maxChunkSize
      \<and> (\<forall>c\<in>set (butlast chunks). int (length c) = maxChunkSize)
      \<and> (\<forall>c\<in>set chunks. 0 < length c \<and> int (length c) \<le> maxChunkSize)"
  using assms
proof (induction enc f rd rule: readSlices.induct)
  case (1 enc f rd)
  let ?n = "min maxChunkSize (file_size f - rd)"
  let ?c = "take (nat ?n) (drop (nat rd) (bytes f))"
  have rs: "readFileSlice enc None f rd = Inr \<lparr>content = enc ?c, read = rd + ?n\<rparr>"
    using "1.prems" by (rule readFileSlice_inside)
  have npos: "0 < ?n" using "1.prems" by (simp add: maxChunkSize_def)
  have lenc: "int (length ?c) = ?n"
  proof -
    have "length ?c = min (nat ?n) (length (bytes f) - nat rd)" by (simp add: min.commute)
    moreover have "int (length (bytes f) - nat rd) = file_size f - rd"
      using "1.prems" by (simp add: file_size_def of_nat_diff)
    ultimately show ?thesis using npos by (simp add: min_def split: if_splits)
  qed
  show ?case
  proof (cases "rd + ?n < file_size f")
    case True
    then have n: "?n = maxChunkSize" by (simp add: min_def split: if_splits)
    have "0 \<le> rd + ?n" using "1.prems" npos by linarith
    with "1.IH" [of "\<lparr>content = enc ?c, read = rd + ?n\<rparr>"] rs True
    have "\<exists>chunks. readSlices enc f (rd + ?n) = Inr (map enc chunks)
      \<and> concat chunks = drop (nat (rd + ?n)) (bytes f)
      \<and> int (length chunks) = (file_size f - (rd + ?n) + (maxChunkSize - 1)) div maxChunkSize
      \<and> (\<forall>c\<in>set (butlast chunks). int (length c) = maxChunkSize)
      \<and> (\<forall>c\<in>set chunks. 0 < length c \<and> int (length c) \<le> maxChunkSize)"
      by simp
    then obtain chunks where ch: "readSlices enc f (rd + ?n) = Inr (map enc chunks)"
      "concat chunks = drop (nat (rd + ?n)) (bytes f)"
      "int (length chunks) = (file_size f - (rd + ?n) + (maxChunkSize - 1)) div maxChunkSize"
      "\<forall>c\<in>set (butlast chunks). int (length c) = maxChunkSize"
      "\<forall>c\<in>set chunks. 0 < length c \<and> int (length c) \<le> maxChunkSize"
      by blast
    have ne: "chunks \<noteq> []"
    proof
      assume "chunks = []"
      with ch(2) have "length (drop (nat (rd + ?n)) (bytes f)) = 0" by simp
      with True "1.prems" npos show False by (simp add: file_size_def)
    qed
    have r: "readSlices enc f rd = Inr (map enc (?c # chunks))"
      using rs True ch(1) n by (subst readSlices.simps) simp
    have cc: "concat (?c # chunks) = drop (nat rd) (bytes f)"
    proof -
      have "nat (rd + ?n) = nat ?n + nat rd" using "1.prems" npos by (simp add: nat_add_distrib)
      then have "drop (nat (rd + ?n)) (bytes f) = drop (nat ?n) (drop (nat rd) (bytes f))"
        by (simp only: drop_drop)
      then have "concat chunks = drop (nat ?n) (drop (nat rd) (bytes f))"
        using ch(2) by (simp only:)
      then show ?thesis
        by (simp only: concat.simps append_take_drop_id)
    qed
    have len: "int (length (?c # chunks)) = (file_size f - rd + (maxChunkSize - 1)) div maxChunkSize"
    proof -
      have "file_size f - rd + (maxChunkSize - 1) = (file_size f - (rd + ?n) + (maxChunkSize - 1)) + 1 * maxChunkSize"
        using n by simp
      then have "(file_size f - rd + (maxChunkSize - 1)) div maxChunkSize
          = (file_size f - (rd + ?n) + (maxChunkSize - 1)) div maxChunkSize + 1"
        by (simp add: maxChunkSize_def)
      then show ?thesis using ch(3) by simp
    qed
    have bl: "\<forall>c\<in>set (butlast (?c # chunks)). int (length c) = maxChunkSize"
      using ne ch(4) lenc n by auto
    have al: "\<forall>c\<in>set (?c # chunks). 0 < length c \<and> int (length c) \<le> maxChunkSize"
      using ch(5) lenc npos by auto
    show ?thesis using r cc len bl al by blast
  next
    case False
    then have n: "?n = file_size f - rd" by (simp add: min_def split: if_splits)
    have r: "readSlices enc f rd = Inr (map enc [?c])"
      using rs False by (subst readSlices.simps) simp
    have cc: "concat [?c] = drop (nat rd) (bytes f)"
      using n "1.prems" by (simp add: file_size_def)
    have len: "int (length [?c]) = (file_size f - rd + (maxChunkSize - 1)) div maxChunkSize"
      using n "1.prems" False by (simp add: maxChunkSize_def min_def split: if_splits)
    have al: "\<forall>c\<in>set [?c]. 0 < length c \<and> int (length c) \<le> maxChunkSize"
      using lenc npos by auto
    have bl: "\<forall>c\<in>set (butlast [?c]). int (length c) = maxChunkSize"
      by simp
    show ?thesis using r cc len bl al by blast
  qed
qed

lemma neg_div_neg:
  fixes s n :: int
  assumes "0 < n"
  shows "- (- s div n) = (s + (n - 1)) div n"
proof -
  define q where "q = (- s) div n"
  define r where "r = (- s) mod n"
  have e: "- s = n * q + r" and r: "0 \<le> r" "r < n"
    using assms by (simp_all add: q_def r_def)
  have "s + (n - 1) = n * (- q) + (n - 1 - r)"
    using e by (simp add: algebra_simps)
  moreover have "0 \<le> n - 1 - r" "n - 1 - r < n" using r by simp_all
  ultimately have "(s + (n - 1)) div n = - q"
    by (rule int_div_pos_eq)
  then show ?thesis by (simp add: q_def)
qed

lemma ceiling_chunks:
  "\<lceil>real_of_int s / real_of_int maxChunkSize\<rceil> = (s + (maxChunkSize - 1)) div maxChunkSize"
proof -
  have "\<lceil>real_of_int s / real_of_int maxChunkSize\<rceil> = - (- s div maxChunkSize)"
    by (rule ceiling_divide_eq_div)
  also have "\<dots> = (s + (maxChunkSize - 1)) div maxChunkSize"
    by (rule neg_div_neg) (simp add: maxChunkSize_def)
  finally show ?thesis .
qed

text \<open>
  C8: for every file of size \<open>s\<close>, reading slices from offset \<open>0\<close> until the returned
  offset reaches \<open>s\<close> succeeds and yields \<open>\<lceil>s / 65536\<rceil>\<close> chunks (one empty chunk when
  \<open>s = 0\<close>); every chunk decodes to at most 64 KiB, every chunk but the last to
  exactly 64 KiB, and the decoded chunks concatenated are the bytes of the file.
  \<open>dec\<close> undoes the base64 coding \<open>enc\<close>.
\<close>

theorem chunking_reproduces_file:
  assumes "\<And>b. dec (enc b) = b" and "dec [] = []"
  shows "\<exists>cs. readSlices enc f 0 = Inr cs
     \<and> int (length cs) =
         (if file_size f = 0 then 1 else \<lceil>real_of_int (file_size f) / real_of_int maxChunkSize\<rceil>)
     \<and> (\<forall>c\<in>set cs. int (length (dec c)) \<le> maxChunkSize)
     \<and> (\<forall>c\<in>set (butlast cs). int (length (dec c)) = maxChunkSize)
     \<and> concat (map dec cs) = bytes f"
proof (cases "file_size f = 0")
  case True
  then have "readSlices enc f 0 = Inr [[]]"
    by (subst readSlices.simps) (simp add: readFileSlice_def)
  moreover have "bytes f = []" using True by (simp add: file_size_def)
  ultimately show ?thesis using True assms(2) by (simp add: maxChunkSize_def)
next
  case False
  then have "0 < file_size f" by (simp add: file_size_def)
  from readSlices_chunks [OF order_refl this, of enc]
  obtain chunks where ch: "readSlices enc f 0 = Inr (map enc chunks)"
      "concat chunks = drop (nat 0) (bytes f)"
      "int (length chunks) = (file_size f - 0 + (maxChunkSize - 1)) div maxChunkSize"
      "\<forall>c\<in>set (butlast chunks). int (length c) = maxChunkSize"
      "\<forall>c\<in>set chunks. 0 < length c \<and> int (length c) \<le> maxChunkSize"
    by blast
  have dm: "map dec (map enc chunks) = chunks"
    using assms(1) by (simp add: map_idI)
  have bl: "butlast (map enc chunks) = map enc (butlast chunks)"
    by (simp add: map_butlast)
  have 1: "int (length (map enc chunks)) =
         (if file_size f = 0 then 1 else \<lceil>real_of_int (file_size f) / real_of_int maxChunkSize\<rceil>)"
    using False ch(3) by (simp add: ceiling_chunks)
  have 2: "\<forall>c\<in>set (map enc chunks). int (length (dec c)) \<le> maxChunkSize"
    using ch(5) assms(1) by simp
  have 3: "\<forall>c\<in>set (butlast (map enc chunks)). int (length (dec c)) = maxChunkSize"
    using ch(4) assms(1) by (simp add: bl)
  have 4: "concat (map dec (map enc chunks)) = bytes f"
    using ch(2) by (simp only: dm) simp
  show ?thesis using ch(1) 1 2 3 4 by blast
qed

theorem chunking_reproduces_file_witness:
  "(\<forall>b::string. id (id b) = b) \<and> id ([]::string) = []
   \<and> readSlices id \<lparr>name = ''a.txt'', bytes = ''abc''\<rparr> 0 = Inr [''abc'']
   \<and> (\<exists>cs. readSlices id \<lparr>name = ''a.txt'', bytes = ''abc''\<rparr> 0 = Inr cs
        \<and> int (length cs) = 1 \<and> concat (map id cs) = ''abc'')"
proof -
  have r: "readSlices id \<lparr>name = ''a.txt'', bytes = ''abc''\<rparr> 0 = Inr [''abc'']"
    by (subst readSlices.simps)
       (simp add: readFileSlice_def file_size_def blob_slice_def maxChunkSize_def Let_def)
  have c: "\<lceil>real_of_int 3 / real_of_int maxChunkSize\<rceil> = 1"
    by (simp add: maxChunkSize_def ceiling_eq_iff)
  show ?thesis
    using chunking_reproduces_file [of id id "\<lparr>name = ''a.txt'', bytes = ''abc''\<rparr>"] r c
    by (simp add: file_size_def)
qed

text \<open>
  C9, amended: in the request/response variant \<^verbatim>\<open>readFileSlice\<close> on an empty file at
  offset \<open>0\<close> resolves with empty content and \<open>read = 0\<close>, whatever the
  \<^verbatim>\<open>FileReader\<close> would do; in both variants, on a file that is not empty, a read at
  the offset equal to the size rejects with "nothing to read".
\<close>

theorem readFileSlice_ends:
  "(file_size f = 0 \<longrightarrow> readFileSlice enc re f 0 = Inr \<lparr>content = [], read = 0\<rparr>)
   \<and> (file_size f \<noteq> 0 \<longrightarrow> readFileSlice enc re f (file_size f) = Inl NothingToRead)
   \<and> (file_size f \<noteq> 0 \<longrightarrow> ws_readFileSlice re f (file_size f) = Inl NothingToRead)"
  by (simp add: readFileSlice_def ws_readFileSlice_def)

theorem readFileSlice_ends_witness:
  "file_size \<lparr>name = ''empty.txt'', bytes = ([]::char list)\<rparr> = 0
   \<and> readFileSlice id None \<lparr>name = ''empty.txt'', bytes = ([]::char list)\<rparr> 0 = Inr \<lparr>content = [], read = 0\<rparr>
   \<and> file_size \<lparr>name = ''a.txt'', bytes = ''abc''\<rparr> \<noteq> 0
   \<and> readFileSlice id None \<lparr>name = ''a.txt'', bytes = ''abc''\<rparr> 3 = Inl NothingToRead
   \<and> ws_readFileSlice None \<lparr>name = ''a.txt'', bytes = ''abc''\<rparr> 3 = Inl NothingToRead"
  using readFileSlice_ends [of "\<lparr>name = ''empty.txt'', bytes = ([]::char list)\<rparr>" id None]
    readFileSlice_ends [of "\<lparr>name = ''a.txt'', bytes = ''abc''\<rparr>" id None]
  by (simp add: file_size_def)

text \<open>The web-socket variant has no branch for the empty file: there the read at
  offset \<open>0\<close> rejects (its \<^verbatim>\<open>doUpload\<close> skips the read loop when \<^verbatim>\<open>file.size\<close> is
  \<open>0\<close>).\<close>

theorem ws_readFileSlice_empty_file_rejects:
  "ws_readFileSlice None \<lparr>name = ''empty.txt'', bytes = ([]::char list)\<rparr> 0 = Inl NothingToRead"
  by (simp add: ws_readFileSlice_def file_size_def)


section \<open>Indexing\<close>

lemma grows_same: "entries c' = entries c \<Longrightarrow> totalSize c' = totalSize c \<Longrightarrow> grows D c c'"
  unfolding grows_def by (intro exI [of _ "[]"]) simp

lemma grows_trans:
  assumes "grows D1 c c1" and "grows D2 c1 c2" and "D1 \<subseteq> D" and "D2 \<subseteq> D"
  shows "grows D c c2"
proof -
  obtain n1 where n1: "entries c1 = entries c @ n1"
      "totalSize c1 = totalSize c + sum_list (map (\<lambda>x. file_size (entry_file x)) n1)"
      "\<forall>x \<in> set n1. (entry_uri x, entry_file x) \<in> D1"
    using assms(1) unfolding grows_def by blast
  obtain n2 where n2: "entries c2 = entries c1 @ n2"
      "totalSize c2 = totalSize c1 + sum_list (map (\<lambda>x. file_size (entry_file x)) n2)"
      "\<forall>x \<in> set n2. (entry_uri x, entry_file x) \<in> D2"
    using assms(2) unfolding grows_def by blast
  have "entries c2 = entries c @ (n1 @ n2)" using n1(1) n2(1) by simp
  moreover have "totalSize c2 = totalSize c + sum_list (map (\<lambda>x. file_size (entry_file x)) (n1 @ n2))"
    using n1(2) n2(2) by simp
  moreover have "\<forall>x \<in> set (n1 @ n2). (entry_uri x, entry_file x) \<in> D"
    using n1(3) n2(3) assms(3,4) by auto
  ultimately show ?thesis unfolding grows_def by blast
qed

lemma grows_mono: "grows D1 c c' \<Longrightarrow> D1 \<subseteq> D \<Longrightarrow> grows D c c'"
  unfolding grows_def by blast

lemma grows_look: "grows D c (snd (look c))"
  by (rule grows_same) (simp_all add: look_def)

lemma grows_checkCancelledC: "grows D c (snd (checkCancelledC c))"
  by (rule grows_same) (simp_all add: checkCancelledC_def look_def split: bool.splits)

lemma grows_indexFile: "(resolve t (name f), f) \<in> D \<Longrightarrow> grows D c (indexFile resolve t f c)"
  unfolding grows_def indexFile_def
  by (intro exI [of _ "[\<lparr>entry_file = f, entry_uri = resolve t (name f)\<rparr>]"]) simp

lemma grows_indexFileList: "grows (list_dests resolve t fs) c (indexFileList resolve t fs c)"
proof (induction resolve t fs c rule: indexFileList.induct)
  case (1 resolve t c)
  show ?case by (simp add: grows_same)
next
  case (2 resolve t fs c)
  then show ?case
    by (auto elim!: grows_mono simp: list_dests_def)
next
  case (3 resolve t f fs c)
  have a: "grows {(resolve t (name f), f)} c (indexFile resolve t f c)"
    by (rule grows_indexFile) simp
  show ?case
    using grows_trans [OF a "3.IH", of "list_dests resolve t (Some f # fs)"]
    by (auto simp: list_dests_def)
qed

lemma grows_indexFileEntry:
  "grows (entry_dests resolve t (WebKitFileEntry r)) c (snd (indexFileEntry resolve t r c))"
  by (cases r) (simp_all add: indexFileEntry_def grows_same grows_indexFile)

lemma grows_walk:
  "grows (entry_dests resolve t e) c (snd (indexEntry' resolve t e c))"
  "grows (\<Union>b \<in> set bs. \<Union>x \<in> set b. entry_dests resolve (resolve t nm) x) c
     (snd (indexDirectoryEntry resolve t nm bs err c))"
  "grows (\<Union>x \<in> set es. entry_dests resolve t x) c (snd (indexEach resolve t es c))"
  "grows (\<Union>x \<in> set es. entry_dests resolve t x) c (snd (indexEntries resolve t es c))"
  "grows (\<Union>b \<in> set bs. \<Union>x \<in> set b. entry_dests resolve t x) c (snd (snd (readEntries resolve t bs err c)))"
proof (induction resolve t e c and resolve t nm bs err c and resolve t es c and resolve t es c
    and resolve t bs err c
    rule: indexEntry'_indexDirectoryEntry_indexEach_indexEntries_readEntries.induct)
  case (1 resolve t r c)
  obtain x c1 where p1: "checkCancelledC c = (x, c1)" by (cases "checkCancelledC c")
  have g: "grows {} c c1" using grows_checkCancelledC [of "{}" c] p1 by simp
  show ?case
  proof (cases x)
    case (Inl e)
    then show ?thesis using p1 g by (auto elim: grows_mono)
  next
    case (Inr u)
    have "grows (entry_dests resolve t (WebKitFileEntry r)) c1 (snd (indexFileEntry resolve t r c1))"
      by (rule grows_indexFileEntry)
    from grows_trans [OF g this, of "entry_dests resolve t (WebKitFileEntry r)"]
    show ?thesis using p1 Inr by simp
  qed
next
  case (2 resolve t nm batches err c)
  let ?D = "entry_dests resolve t (WebKitDirectoryEntry nm batches err)"
  obtain x c1 where p1: "checkCancelledC c = (x, c1)" by (cases "checkCancelledC c")
  have g1: "grows {} c c1" using grows_checkCancelledC [of "{}" c] p1 by simp
  show ?case
  proof (cases x)
    case (Inl e)
    then show ?thesis using p1 g1 by (auto elim: grows_mono)
  next
    case (Inr u)
    have "grows ?D c1 (snd (indexDirectoryEntry resolve t nm batches err c1))"
      using "2.IH" [OF p1 [symmetric] Inr] by simp
    then have "grows ?D c (snd (indexDirectoryEntry resolve t nm batches err c1))"
      using grows_trans [OF g1 _, of ?D _ ?D] by simp
    then show ?thesis using p1 Inr by simp
  qed
next
  case (3 resolve t nm batches err c)
  let ?D = "\<Union>b \<in> set batches. \<Union>x \<in> set b. entry_dests resolve (resolve t nm) x"
  obtain x c1 where p1: "checkCancelledC c = (x, c1)" by (cases "checkCancelledC c")
  have g1: "grows {} c c1" using grows_checkCancelledC [of "{}" c] p1 by simp
  show ?case
  proof (cases x)
    case (Inl e)
    then show ?thesis using p1 g1 by (auto elim: grows_mono)
  next
    case (Inr u)
    obtain r rs c2 where p2: "readEntries resolve (resolve t nm) batches err c1 = (r, rs, c2)"
      by (cases "readEntries resolve (resolve t nm) batches err c1") auto
    have "grows ?D c1 c2"
      using "3.IH" [OF p1 [symmetric] Inr] p2 by simp
    then have "grows ?D c c2" using grows_trans [OF g1 _, of ?D c2 ?D] by simp
    then show ?thesis using p1 Inr p2 by (auto split: sum.splits)
  qed
next
  case (4 resolve t c)
  show ?case by (simp add: grows_same)
next
  case (5 resolve t entry rest c)
  obtain r c1 where p1: "indexEntry' resolve t entry c = (r, c1)"
    by (cases "indexEntry' resolve t entry c")
  obtain rs c2 where p2: "indexEach resolve t rest c1 = (rs, c2)"
    by (cases "indexEach resolve t rest c1")
  have a: "grows (entry_dests resolve t entry) c c1" using "5.IH"(1) p1 by simp
  have b: "grows (\<Union>x \<in> set rest. entry_dests resolve t x) c1 c2"
    using "5.IH"(2) [OF p1 [symmetric]] p2 by simp
  show ?case
    using grows_trans [OF a b, of "\<Union>x \<in> set (entry # rest). entry_dests resolve t x"] p1 p2
    by auto
next
  case (6 resolve t es c)
  obtain x c1 where p1: "checkCancelledC c = (x, c1)" by (cases "checkCancelledC c")
  have g1: "grows {} c c1" using grows_checkCancelledC [of "{}" c] p1 by simp
  show ?case
  proof (cases x)
    case (Inl e)
    then show ?thesis using p1 g1 by (auto elim: grows_mono)
  next
    case (Inr u)
    obtain rs c2 where p2: "indexEach resolve t es c1 = (rs, c2)"
      by (cases "indexEach resolve t es c1")
    have "grows (\<Union>x \<in> set es. entry_dests resolve t x) c1 c2"
      using "6.IH" [OF p1 [symmetric] Inr] p2 by simp
    from grows_trans [OF g1 this, of "\<Union>x \<in> set es. entry_dests resolve t x"]
    show ?thesis using p1 Inr p2 by simp
  qed
next
  case (7 resolve t err c)
  show ?case
    using grows_look [of "{}" c] by (auto split: option.splits intro: grows_same)
next
  case (8 resolve t results later err c)
  let ?D = "\<Union>b \<in> set (results # later). \<Union>x \<in> set b. entry_dests resolve t x"
  obtain cancelled c1 where p1: "look c = (cancelled, c1)" by (cases "look c")
  have g1: "grows {} c c1" using grows_look [of "{}" c] p1 by simp
  show ?case
  proof (cases "\<not> cancelled \<and> results \<noteq> []")
    case False
    then show ?thesis using p1 g1 by (auto elim: grows_mono)
  next
    case True
    obtain r1 c2 where p2: "indexEntries resolve t results c1 = (r1, c2)"
      by (cases "indexEntries resolve t results c1")
    obtain r rs c3 where p3: "readEntries resolve t later err c2 = (r, rs, c3)"
      by (cases "readEntries resolve t later err c2") auto
    have a: "grows (\<Union>x \<in> set results. entry_dests resolve t x) c1 c2"
      using "8.IH"(1) [OF p1 [symmetric] True] p2 by simp
    have b: "grows (\<Union>b \<in> set later. \<Union>x \<in> set b. entry_dests resolve t x) c2 c3"
      using "8.IH"(2) [OF p1 [symmetric] True p2 [symmetric]] p3 by simp
    have "grows ?D c1 c3" using grows_trans [OF a b, of ?D] by auto
    then have "grows ?D c c3" using grows_trans [OF g1 _, of ?D c3 ?D] by simp
    then show ?thesis using p1 True p2 p3 by simp
  qed
qed

lemma grows_indexEntry:
  "grows (call_dests resolve (IndexEntry t e)) c (snd (indexEntry resolve t e c))"
  using grows_checkCancelledC [of "{}" c] grows_walk(1) [of resolve t _ c]
  by (auto simp: indexEntry_def split: option.splits)

lemma grows_indexItems:
  "grows (\<Union>x \<in> set its. case x of None \<Rightarrow> {} | Some y \<Rightarrow> entry_dests resolve t y) c
     (snd (indexItems resolve t its c))"
proof (induction its arbitrary: c)
  case Nil
  show ?case by (simp add: grows_same)
next
  case (Cons e rest)
  obtain r c1 where p1: "indexEntry resolve t e c = (r, c1)"
    by (cases "indexEntry resolve t e c")
  obtain rs c2 where p2: "indexItems resolve t rest c1 = (rs, c2)"
    by (cases "indexItems resolve t rest c1")
  have a: "grows (call_dests resolve (IndexEntry t e)) c c1"
    using grows_indexEntry [of resolve t e c] p1 by simp
  have b: "grows (\<Union>x \<in> set rest. case x of None \<Rightarrow> {} | Some y \<Rightarrow> entry_dests resolve t y) c1 c2"
    using Cons.IH [of c1] p2 by simp
  show ?case
    using grows_trans [OF a b,
        of "\<Union>x \<in> set (e # rest). case x of None \<Rightarrow> {} | Some y \<Rightarrow> entry_dests resolve t y"] p1 p2
    by (auto split: option.splits)
qed

lemma grows_indexDataTransfer:
  "grows (call_dests resolve (IndexDataTransfer t d)) c (snd (indexDataTransfer resolve t d c))"
proof -
  let ?D = "call_dests resolve (IndexDataTransfer t d)"
  obtain x c1 where p1: "checkCancelledC c = (x, c1)" by (cases "checkCancelledC c")
  have g1: "grows {} c c1" using grows_checkCancelledC [of "{}" c] p1 by simp
  show ?thesis
  proof (cases x)
    case (Inl e)
    then show ?thesis using p1 g1 by (auto simp: indexDataTransfer_def elim: grows_mono)
  next
    case (Inr u)
    show ?thesis
    proof (cases "items d")
      case None
      have "grows ?D c1 (indexFileList resolve t (files_of d) c1)"
        using grows_indexFileList [of resolve t "files_of d" c1] None by simp
      then have "grows ?D c (indexFileList resolve t (files_of d) c1)"
        using grows_trans [OF g1 _, of ?D _ ?D] by simp
      then show ?thesis using p1 Inr None by (simp add: indexDataTransfer_def)
    next
      case (Some its)
      obtain y c2 where p2: "checkCancelledC c1 = (y, c2)" by (cases "checkCancelledC c1")
      have g2: "grows {} c1 c2" using grows_checkCancelledC [of "{}" c1] p2 by simp
      have g12: "grows {} c c2" using grows_trans [OF g1 g2] by simp
      show ?thesis
      proof (cases y)
        case (Inl e)
        then show ?thesis
          using p1 p2 Inr Some g12
          by (auto simp: indexDataTransfer_def indexDataTransferItemList_def elim: grows_mono)
      next
        case y: (Inr v)
        obtain rs c3 where p3: "indexItems resolve t its c2 = (rs, c3)"
          by (cases "indexItems resolve t its c2")
        have "grows ?D c2 c3"
          using grows_indexItems [where its = its and resolve = resolve and t = t and c = c2] p3 Some by simp
        then have "grows ?D c c3" using grows_trans [OF g12 _, of ?D c3 ?D] by simp
        then show ?thesis
          using p1 p2 Inr Some y p3
          by (simp add: indexDataTransfer_def indexDataTransferItemList_def)
      qed
    qed
  qed
qed

lemma grows_run_call: "grows (call_dests resolve call) c (run_call resolve call c)"
proof (cases call)
  case (IndexFile t f)
  then show ?thesis by (simp add: grows_indexFile)
next
  case (IndexFileList t fs)
  then show ?thesis using grows_indexFileList [of resolve t fs c] by simp
next
  case (IndexEntry t e)
  then show ?thesis using grows_indexEntry [of resolve t e c] by simp
next
  case (IndexDataTransfer t d)
  then show ?thesis using grows_indexDataTransfer [of resolve t d c] by simp
qed

lemma grows_run_calls:
  "grows (\<Union>call \<in> set calls. call_dests resolve call) c (run_calls resolve calls c)"
proof (induction calls arbitrary: c)
  case Nil
  show ?case by (simp add: run_calls_def grows_same)
next
  case (Cons call calls)
  have a: "grows (call_dests resolve call) c (run_call resolve call c)"
    by (rule grows_run_call)
  have b: "grows (\<Union>x \<in> set calls. call_dests resolve x) (run_call resolve call c)
      (run_calls resolve (call # calls) c)"
    using Cons.IH [of "run_call resolve call c"] by (simp add: run_calls_def)
  show ?case
    using grows_trans [OF a b, of "\<Union>x \<in> set (call # calls). call_dests resolve x"] by auto
qed

lemma entry_dests_shape:
  "(u, f) \<in> entry_dests resolve t e \<Longrightarrow> \<exists>t'. u = resolve t' (name f)"
  by (induction resolve t e rule: entry_dests.induct) (auto split: sum.splits)

lemma call_dests_shape:
  "(u, f) \<in> call_dests resolve call \<Longrightarrow> \<exists>t'. u = resolve t' (name f)"
  by (cases call) (auto simp: list_dests_def split: option.splits dest: entry_dests_shape)

text \<open>
  C10: after any sequence of \<^verbatim>\<open>indexFile\<close>, \<^verbatim>\<open>indexFileList\<close>, \<^verbatim>\<open>indexEntry\<close> and
  \<^verbatim>\<open>indexDataTransfer\<close> calls on a fresh context, whatever the token says and
  whichever reads fail, \<^verbatim>\<open>totalSize\<close> is the sum of the sizes of the files of the
  entries, and the destination of every entry is a target resolved with the name of its
  file: the target of the call that added it, resolved first with the names of the
  directories between that call's entry and the file.
\<close>

theorem indexing_keeps_total_and_destinations:
  "totalSize (run_calls resolve calls \<lparr>totalSize = 0, entries = [], token = tok, polls = n\<rparr>)
     = sum_list (map (\<lambda>x. file_size (entry_file x))
         (entries (run_calls resolve calls \<lparr>totalSize = 0, entries = [], token = tok, polls = n\<rparr>)))
   \<and> (\<forall>x \<in> set (entries (run_calls resolve calls
            \<lparr>totalSize = 0, entries = [], token = tok, polls = n\<rparr>)).
         (\<exists>call \<in> set calls. (entry_uri x, entry_file x) \<in> call_dests resolve call)
         \<and> (\<exists>t. entry_uri x = resolve t (name (entry_file x))))"
proof -
  let ?c = "\<lparr>totalSize = 0, entries = [], token = tok, polls = n\<rparr>"
  obtain new where new: "entries (run_calls resolve calls ?c) = entries ?c @ new"
      "totalSize (run_calls resolve calls ?c)
         = totalSize ?c + sum_list (map (\<lambda>x. file_size (entry_file x)) new)"
      "\<forall>x \<in> set new. (entry_uri x, entry_file x) \<in> (\<Union>call \<in> set calls. call_dests resolve call)"
    using grows_run_calls [where calls = calls and resolve = resolve and c = ?c]
    unfolding grows_def by (elim exE conjE) auto
  have e: "entries (run_calls resolve calls ?c) = new" using new(1) by simp
  have 1: "totalSize (run_calls resolve calls ?c)
      = sum_list (map (\<lambda>x. file_size (entry_file x)) (entries (run_calls resolve calls ?c)))"
    using new(2) e by simp
  have 2: "\<forall>x \<in> set (entries (run_calls resolve calls ?c)).
      (\<exists>call \<in> set calls. (entry_uri x, entry_file x) \<in> call_dests resolve call)
      \<and> (\<exists>t. entry_uri x = resolve t (name (entry_file x)))"
    using new(3) e call_dests_shape by fastforce
  show ?thesis using 1 2 by simp
qed

theorem indexing_keeps_total_and_destinations_witness:
  "run_calls slash [IndexFile ''/t'' a_txt, IndexEntry ''/t'' (Some dir_d)]
     \<lparr>totalSize = 0, entries = [], token = never, polls = 0\<rparr>
   = \<lparr>totalSize = 5,
      entries = [\<lparr>entry_file = a_txt, entry_uri = ''/t/a.txt''\<rparr>,
                 \<lparr>entry_file = b_txt, entry_uri = ''/t/d/b.txt''\<rparr>],
      token = never, polls = 6\<rparr>
   \<and> file_size a_txt + file_size b_txt = 5
   \<and> (''/t/a.txt'', a_txt) \<in> call_dests slash (IndexFile ''/t'' a_txt)
   \<and> (''/t/d/b.txt'', b_txt) \<in> call_dests slash (IndexEntry ''/t'' (Some dir_d))
   \<and> ''/t/d/b.txt'' = slash (slash ''/t'' ''d'') (name b_txt)"
proof -
  have run: "run_calls slash [IndexFile ''/t'' a_txt, IndexEntry ''/t'' (Some dir_d)]
     \<lparr>totalSize = 0, entries = [], token = never, polls = 0\<rparr>
   = \<lparr>totalSize = 5,
      entries = [\<lparr>entry_file = a_txt, entry_uri = ''/t/a.txt''\<rparr>,
                 \<lparr>entry_file = b_txt, entry_uri = ''/t/d/b.txt''\<rparr>],
      token = never, polls = 6\<rparr>"
    by (simp add: run_calls_def indexFile_def indexFileEntry_def indexEntry_def checkCancelledC_def
        look_def file_size_def slash_def a_txt_def b_txt_def dir_d_def never_def)
  show ?thesis
    using indexing_keeps_total_and_destinations
      [of slash "[IndexFile ''/t'' a_txt, IndexEntry ''/t'' (Some dir_d)]" never 0] run
    by (simp add: slash_def a_txt_def b_txt_def dir_d_def file_size_def)
qed


section \<open>The node server\<close>

lemmas srv_defs = srv_open_def srv_append_def srv_close_def upload_rename_def upload_renamed_def
  upload_dispose_def upload_create_def upload_append_def new_NodeFileUpload_def start_def
  disk_def resume_def run_def

lemmas example_defs = staged_def two_chunks_def last_written_def rename_started_def
  create_failed_def rename_done_def finalized_def upload_00_def plain_lib_def empty_server_def

subsection \<open>The store of upload objects only grows\<close>

lemma same_objects_refl: "same_objects os os"
  by (simp add: same_objects_def)


lemma same_objects_append: "same_objects os (os @ [u])"
  by (simp add: same_objects_def nth_append)

lemma same_objects_renamed: "same_objects os (os[r := (os ! r)\<lparr>renamed := True\<rparr>])"
  unfolding same_objects_def
proof (intro conjI allI impI)
  fix q assume "q < length os"
  then show "upload_id (os[r := (os ! r)\<lparr>renamed := True\<rparr>] ! q) = upload_id (os ! q)"
    "uploadPath (os[r := (os ! r)\<lparr>renamed := True\<rparr>] ! q) = uploadPath (os ! q)"
    "fsPath (os[r := (os ! r)\<lparr>renamed := True\<rparr>] ! q) = fsPath (os ! q)"
    by (cases "q = r"; simp)+
  assume "renamed (os ! q)"
  with \<open>q < length os\<close> show "renamed (os[r := (os ! r)\<lparr>renamed := True\<rparr>] ! q)"
    by (cases "q = r"; simp)
qed simp

lemma same_objects_paths:
  assumes "same_objects os os'"
  shows "uploadPath ` set os \<subseteq> uploadPath ` set os'"
proof
  fix p assume "p \<in> uploadPath ` set os"
  then obtain r where r: "r < length os" "p = uploadPath (os ! r)"
    by (auto simp: in_set_conv_nth)
  then have "r < length os'" "uploadPath (os' ! r) = p"
    using assms by (auto simp: same_objects_def)
  then show "p \<in> uploadPath ` set os'"
    by (metis imageI nth_mem)
qed

lemma cont_ok_mono: "same_objects os os' \<Longrightarrow> cont_ok os k \<Longrightarrow> cont_ok os' k"
  by (cases k) (auto simp: same_objects_def)

lemma call_ok_mono:
  "same_objects os os' \<Longrightarrow> cont_ok os k \<Longrightarrow> call_ok os call k \<Longrightarrow> call_ok os' call k"
  using same_objects_paths [of os os']
  by (cases call; cases k) (auto simp: same_objects_def)

lemma task_ok_mono: "same_objects os os' \<Longrightarrow> task_ok os t \<Longrightarrow> task_ok os' t"
  by (cases t) (auto intro: cont_ok_mono call_ok_mono)

lemma same_objects_close: "same_objects (objects s) (objects (snd (srv_close i s)))"
  by (auto simp: srv_defs same_objects_refl split: option.splits)

lemma same_objects_dispatch: "same_objects (objects s) (objects (snd (dispatch L q s)))"
  by (cases q) (auto simp: srv_defs Let_def same_objects_refl same_objects_append split: option.splits)

lemma same_objects_disk: "same_objects (objects s) (objects (disk k fail s))"
  by (auto simp: srv_defs same_objects_refl split: task.splits option.splits sum.splits)

lemma same_objects_continue: "same_objects (objects s) (objects (snd (continue c res s)))"
  by (cases "(c, res, s)" rule: continue.cases)
     (auto simp: srv_defs Let_def same_objects_refl same_objects_renamed split: option.splits)

lemma same_objects_resume: "same_objects (objects s) (objects (snd (resume k s)))"
  using same_objects_continue [of "s\<lparr>tasks := take k (tasks s) @ drop (Suc k) (tasks s)\<rparr>"]
  by (auto simp: resume_def same_objects_refl split: task.splits)

lemma same_objects_step: "same_objects (objects s) (objects (snd (step L l s)))"
  by (cases l) (simp_all add: same_objects_dispatch same_objects_disk same_objects_resume)



subsection \<open>The registry and the tasks stay in order\<close>

lemma tasks_ok_nth: "tasks_ok s \<Longrightarrow> k < length (tasks s) \<Longrightarrow> task_ok (objects s) (tasks s ! k)"
  by (simp add: tasks_ok_def list_all_length)

lemma tasks_ok_start:
  "tasks_ok s \<Longrightarrow> call_ok (objects s) call k \<Longrightarrow> cont_ok (objects s) k \<Longrightarrow>
   tasks_ok (start call k s)"
  by (simp add: tasks_ok_def start_def)

lemma tasks_ok_objects:
  "tasks_ok s \<Longrightarrow> same_objects (objects s) os \<Longrightarrow> tasks_ok (s\<lparr>objects := os\<rparr>)"
  by (auto simp: tasks_ok_def list_all_iff intro: task_ok_mono)

lemma registry_ok_close: "registry_ok s \<Longrightarrow> registry_ok (snd (srv_close i s))"
  by (auto simp: registry_ok_def srv_close_def upload_dispose_def start_def split: option.splits)

lemma tasks_ok_close: "registry_ok s \<Longrightarrow> tasks_ok s \<Longrightarrow> tasks_ok (snd (srv_close i s))"
  by (auto simp: registry_ok_def srv_close_def upload_dispose_def split: option.splits
           intro!: tasks_ok_start)

lemma registry_ok_open: "registry_ok s \<Longrightarrow> registry_ok (snd (srv_open L rnd uri c d s))"
  by (auto simp: registry_ok_def srv_open_def upload_create_def start_def new_NodeFileUpload_def
        Let_def nth_append less_Suc_eq)

lemma tasks_ok_open: "tasks_ok s \<Longrightarrow> tasks_ok (snd (srv_open L rnd uri c d s))"
proof -
  assume ok: "tasks_ok s"
  let ?u = "new_NodeFileUpload L rnd (fsPath_of L uri)"
  have "list_all (task_ok (objects s @ [?u])) (tasks s)"
    using ok same_objects_append [of "objects s" ?u]
    by (auto simp: tasks_ok_def list_all_iff intro: task_ok_mono)
  then show ?thesis
    by (simp add: tasks_ok_def srv_open_def upload_create_def start_def Let_def)
qed

lemma registry_ok_append: "registry_ok s \<Longrightarrow> registry_ok (snd (srv_append L i c d s))"
  by (auto simp: registry_ok_def srv_append_def upload_append_def start_def split: option.splits)

lemma tasks_ok_append:
  "registry_ok s \<Longrightarrow> tasks_ok s \<Longrightarrow> tasks_ok (snd (srv_append L i c d s))"
  by (auto simp: registry_ok_def srv_append_def upload_append_def split: option.splits
           intro!: tasks_ok_start)

lemma registry_ok_disk: "registry_ok s \<Longrightarrow> registry_ok (disk k fail s)"
  by (auto simp: registry_ok_def disk_def split: task.splits option.splits sum.splits)

lemma tasks_ok_disk: "tasks_ok s \<Longrightarrow> tasks_ok (disk k fail s)"
proof -
  assume ok: "tasks_ok s"
  have *: "list_all (task_ok (objects s)) ((tasks s)[k := Completed res c])"
    if "k < length (tasks s)" "tasks s ! k = Started call c" for call c res
  proof -
    have "task_ok (objects s) (tasks s ! k)"
      using ok that(1) by (simp add: tasks_ok_def list_all_length)
    then have "task_ok (objects s) (Completed res c)" using that(2) by simp
    then show ?thesis
      using ok set_update_subset_insert [of "tasks s" k "Completed res c"]
      by (auto simp: tasks_ok_def list_all_iff)
  qed
  show ?thesis
    using ok * by (auto simp: tasks_ok_def disk_def split: task.splits option.splits sum.splits)
qed

lemma registry_ok_renamed: "registry_ok s \<Longrightarrow> registry_ok (upload_renamed r s)"
  unfolding registry_ok_def upload_renamed_def
proof (intro allI impI)
  fix i q
  assume ok: "\<forall>i r. uploads s i = Some r \<longrightarrow> r < length (objects s) \<and> upload_id (objects s ! r) = i"
    and "uploads (s\<lparr>objects := (objects s)[r := (objects s ! r)\<lparr>renamed := True\<rparr>]\<rparr>) i = Some q"
  then have "q < length (objects s)" "upload_id (objects s ! q) = i" by auto
  then show "q < length (objects (s\<lparr>objects := (objects s)[r := (objects s ! r)\<lparr>renamed := True\<rparr>]\<rparr>))
     \<and> upload_id (objects (s\<lparr>objects := (objects s)[r := (objects s ! r)\<lparr>renamed := True\<rparr>]\<rparr>) ! q) = i"
    by (cases "q = r"; simp)
qed

lemma tasks_ok_renamed: "tasks_ok s \<Longrightarrow> tasks_ok (upload_renamed r s)"
  unfolding upload_renamed_def by (intro tasks_ok_objects same_objects_renamed)

lemma registry_ok_continue: "registry_ok s \<Longrightarrow> registry_ok (snd (continue c res s))"
proof (cases "(c, res, s)" rule: continue.cases)
  case (4 r v s')
  then show "registry_ok s \<Longrightarrow> ?thesis"
    by (simp add: Let_def registry_ok_close registry_ok_renamed)
qed (auto simp: upload_rename_def start_def registry_ok_def)

lemma tasks_ok_continue:
  "registry_ok s \<Longrightarrow> tasks_ok s \<Longrightarrow> cont_ok (objects s) c \<Longrightarrow> tasks_ok (snd (continue c res s))"
proof (cases "(c, res, s)" rule: continue.cases)
  case (4 r v s')
  then show "registry_ok s \<Longrightarrow> tasks_ok s \<Longrightarrow> ?thesis"
    by (simp add: Let_def tasks_ok_close registry_ok_renamed tasks_ok_renamed)
next
  case (2 r d v s')
  then show "tasks_ok s \<Longrightarrow> cont_ok (objects s) c \<Longrightarrow> ?thesis"
    by (auto simp: upload_rename_def intro!: tasks_ok_start)
qed auto

lemma tasks_ok_remove:
  "tasks_ok s \<Longrightarrow> tasks_ok (s\<lparr>tasks := take k (tasks s) @ drop (Suc k) (tasks s)\<rparr>)"
  by (auto simp: tasks_ok_def list_all_iff dest: in_set_takeD in_set_dropD)

lemma registry_ok_resume: "registry_ok s \<Longrightarrow> registry_ok (snd (resume k s))"
proof -
  assume ok: "registry_ok s"
  have "registry_ok (s\<lparr>tasks := ts\<rparr>)" for ts
    using ok by (simp add: registry_ok_def)
  then show ?thesis
    using ok by (auto simp: resume_def intro: registry_ok_continue split: task.splits)
qed

lemma tasks_ok_resume: "registry_ok s \<Longrightarrow> tasks_ok s \<Longrightarrow> tasks_ok (snd (resume k s))"
proof -
  assume ok: "registry_ok s" "tasks_ok s"
  have r: "registry_ok (s\<lparr>tasks := ts\<rparr>)" for ts
    using ok(1) by (simp add: registry_ok_def)
  have c: "cont_ok (objects s) c" if "k < length (tasks s)" "tasks s ! k = Completed res c" for res c
  proof -
    have "task_ok (objects s) (tasks s ! k)"
      using ok(2) that(1) by (simp add: tasks_ok_def list_all_length)
    then show ?thesis using that(2) by simp
  qed
  show ?thesis
    using ok r c tasks_ok_remove [of s k]
    by (auto simp: resume_def intro!: tasks_ok_continue split: task.splits)
qed

lemma registry_ok_step: "registry_ok s \<Longrightarrow> registry_ok (snd (step L l s))"
proof (cases l)
  case (Arrives q)
  then show "registry_ok s \<Longrightarrow> ?thesis"
    by (cases q) (simp_all add: registry_ok_open registry_ok_append registry_ok_close)
qed (simp_all add: registry_ok_disk registry_ok_resume)

lemma tasks_ok_step: "registry_ok s \<Longrightarrow> tasks_ok s \<Longrightarrow> tasks_ok (snd (step L l s))"
proof (cases l)
  case (Arrives q)
  then show "registry_ok s \<Longrightarrow> tasks_ok s \<Longrightarrow> ?thesis"
    by (cases q) (simp_all add: tasks_ok_open tasks_ok_append tasks_ok_close)
qed (simp_all add: tasks_ok_disk tasks_ok_resume)

lemma ok_run:
  "registry_ok s \<Longrightarrow> tasks_ok s \<Longrightarrow> registry_ok (run L ls s) \<and> tasks_ok (run L ls s)"
proof (induction ls arbitrary: s)
  case Nil
  then show ?case by (simp add: run_def)
next
  case (Cons l ls)
  have "run L (l # ls) s = run L ls (snd (step L l s))" by (simp add: run_def)
  then show ?case
    using Cons.IH [of "snd (step L l s)"] Cons.prems
    by (simp add: registry_ok_step tasks_ok_step)
qed

lemma ok_empty: "registry_ok empty_server" "tasks_ok empty_server"
  by (simp_all add: registry_ok_def tasks_ok_def empty_server_def)


subsection \<open>Which turns change a file\<close>








subsection \<open>Requests without the done flag lead to no rename\<close>







lemma move_is_finalizing: "task_ok os t \<Longrightarrow> is_move t \<Longrightarrow> finalizing t"
  by (cases t rule: is_move.cases) (auto elim: call_ok.elims)


subsection \<open>Where a rename is started\<close>







subsection \<open>What the turns do to the registry\<close>

lemma uploads_close: "uploads (snd (srv_close i s)) = uploads s"
  by (simp add: srv_close_def upload_dispose_def start_def split: option.splits)

lemma uploads_continue: "uploads (snd (continue c res s)) = uploads s"
  by (cases "(c, res, s)" rule: continue.cases)
     (simp_all add: Let_def uploads_close upload_rename_def upload_renamed_def start_def)

lemma uploads_resume: "uploads (snd (resume k s)) = uploads s"
  by (simp add: resume_def uploads_continue split: task.splits)

lemma uploads_disk: "uploads (disk k fail s) = uploads s"
  by (simp add: disk_def split: task.splits option.splits sum.splits)

lemma uploads_append: "uploads (snd (srv_append L i c d s)) = uploads s"
  by (simp add: srv_append_def upload_append_def start_def split: option.splits)

lemma uploads_open:
  "uploads (snd (srv_open L rnd uri c d s)) = (uploads s)(''upload_'' @ rnd \<mapsto> length (objects s))"
  by (simp add: srv_open_def upload_create_def start_def new_NodeFileUpload_def Let_def)

lemma uploads_step:
  "uploads (snd (step L l s)) =
     (case l of Arrives (Open rnd uri c d) \<Rightarrow> (uploads s)(''upload_'' @ rnd \<mapsto> length (objects s))
      | _ \<Rightarrow> uploads s)"
  by (cases l rule: carries_done.cases)
     (simp_all add: uploads_open uploads_append uploads_close uploads_disk uploads_resume)

lemma uploads_step_mono: "uploads s i \<noteq> None \<Longrightarrow> uploads (snd (step L l s)) i \<noteq> None"
  by (simp add: uploads_step split: label.splits request.splits)

lemma uploads_run_mono: "uploads s i \<noteq> None \<Longrightarrow> uploads (run L ls s) i \<noteq> None"
proof (induction ls arbitrary: s)
  case Nil
  then show ?case by (simp add: run_def)
next
  case (Cons l ls)
  have "run L (l # ls) s = run L ls (snd (step L l s))" by (simp add: run_def)
  then show ?case using Cons.IH [of "snd (step L l s)"] Cons.prems uploads_step_mono by metis
qed

lemma renamed_step:
  "r < length (objects s) \<Longrightarrow> renamed (objects s ! r) \<Longrightarrow>
   renamed (objects (snd (step L l s)) ! r)"
  using same_objects_step [of s L l] by (simp add: same_objects_def)

lemma resume_moved:
  assumes ok: "tasks_ok s" and k: "k < length (tasks s)"
    and t: "tasks s ! k = Completed None (Moved r v)"
  shows "fst (resume k s) = Some (Inr v)" "renamed (objects (snd (resume k s)) ! r)"
proof -
  have r: "r < length (objects s)" using tasks_ok_nth [OF ok k] t by simp
  let ?s = "upload_renamed r (s\<lparr>tasks := take k (tasks s) @ drop (Suc k) (tasks s)\<rparr>)"
  have 1: "renamed (objects ?s ! r)" "r < length (objects ?s)"
    using r by (simp_all add: upload_renamed_def)
  have 2: "snd (resume k s) = snd (srv_close (upload_id (objects ?s ! r)) ?s)"
    using k t by (simp add: resume_def Let_def)
  show "fst (resume k s) = Some (Inr v)" using k t by (simp add: resume_def Let_def)
  show "renamed (objects (snd (resume k s)) ! r)"
    using 1 same_objects_close [of ?s "upload_id (objects ?s ! r)"] unfolding 2
    by (simp add: same_objects_def)
qed

lemma resume_not_unknown: "fst (resume k s) \<noteq> Some (Inl (DoesNotExist j))"
proof (cases "k < length (tasks s)")
  case True
  show ?thesis
  proof (cases "tasks s ! k")
    case (Started call c)
    then show ?thesis using True by (simp add: resume_def)
  next
    case (Completed res c)
    then show ?thesis
      using True
      by (cases "(c, res, s\<lparr>tasks := take k (tasks s) @ drop (Suc k) (tasks s)\<rparr>)"
            rule: continue.cases)
         (auto simp: resume_def Let_def)
  qed
qed (simp add: resume_def)

subsection \<open>Closing\<close>

lemma close_once:
  assumes "uploads s i = Some r" "\<not> renamed (objects s ! r)"
  shows "run L [Arrives (Close i), Disk (length (tasks s)) None, Resumes (length (tasks s))] s
           = s\<lparr>files := (files s)(uploadPath (objects s ! r) := None)\<rparr>"
proof (cases "files s (uploadPath (objects s ! r))")
  case None
  then show ?thesis
    using assms
    by (simp add: run_def srv_close_def upload_dispose_def start_def disk_def resume_def
          fun_upd_idem)
next
  case (Some b)
  then show ?thesis
    using assms
    by (simp add: run_def srv_close_def upload_dispose_def start_def disk_def resume_def)
qed

lemma close_twice:
  assumes "uploads s i = Some r" "\<not> renamed (objects s ! r)"
  shows "run L [Arrives (Close i), Arrives (Close i),
                 Disk (length (tasks s)) None, Disk (Suc (length (tasks s))) None,
                 Resumes (length (tasks s)), Resumes (length (tasks s))] s
           = s\<lparr>files := (files s)(uploadPath (objects s ! r) := None)\<rparr>"
    "run L [Arrives (Close i), Arrives (Close i),
                 Disk (Suc (length (tasks s))) None, Disk (length (tasks s)) None,
                 Resumes (length (tasks s)), Resumes (length (tasks s))] s
           = s\<lparr>files := (files s)(uploadPath (objects s ! r) := None)\<rparr>"
proof -
  show "run L [Arrives (Close i), Arrives (Close i),
                 Disk (length (tasks s)) None, Disk (Suc (length (tasks s))) None,
                 Resumes (length (tasks s)), Resumes (length (tasks s))] s
           = s\<lparr>files := (files s)(uploadPath (objects s ! r) := None)\<rparr>"
  proof (cases "files s (uploadPath (objects s ! r))")
    case None
    then show ?thesis
      using assms
      by (simp add: run_def srv_close_def upload_dispose_def start_def disk_def resume_def
            fun_upd_idem nth_append list_update_append)
  next
    case (Some b)
    then show ?thesis
      using assms
      by (simp add: run_def srv_close_def upload_dispose_def start_def disk_def resume_def
            nth_append list_update_append)
  qed
  show "run L [Arrives (Close i), Arrives (Close i),
                 Disk (Suc (length (tasks s))) None, Disk (length (tasks s)) None,
                 Resumes (length (tasks s)), Resumes (length (tasks s))] s
           = s\<lparr>files := (files s)(uploadPath (objects s ! r) := None)\<rparr>"
  proof (cases "files s (uploadPath (objects s ! r))")
    case None
    then show ?thesis
      using assms
      by (simp add: run_def srv_close_def upload_dispose_def start_def disk_def resume_def
            fun_upd_idem nth_append list_update_append)
  next
    case (Some b)
    then show ?thesis
      using assms
      by (simp add: run_def srv_close_def upload_dispose_def start_def disk_def resume_def
            nth_append list_update_append)
  qed
qed

lemma close_starts_unlink:
  "uploads s i = Some r \<Longrightarrow> \<not> renamed (objects s ! r) \<Longrightarrow>
   snd (srv_close i s)
     = s\<lparr>tasks := tasks s @ [Started (Unlink (uploadPath (objects s ! r))) Swallowed]\<rparr>"
  by (simp add: srv_close_def upload_dispose_def start_def)

lemma unlink_effect:
  "k < length (tasks s) \<Longrightarrow> tasks s ! k = Started (Unlink p) c \<Longrightarrow>
   files (disk k None s) = (files s)(p := None) \<and> files (disk k (Some code) s) = files s"
  by (auto simp: disk_def split: option.splits)

subsection \<open>The example states\<close>

lemma staged_eq:
  "staged = \<lparr>toDispose = [DisposeUpload 0, DeleteUpload ''upload_00''],
     uploads = [''upload_00'' \<mapsto> 0], objects = [upload_00],
     files = [''/d/upload_00'' \<mapsto> ''abc''], tasks = []\<rparr>"
  by (simp add: example_defs srv_defs Let_def)

lemma two_chunks_eq:
  "two_chunks = \<lparr>toDispose = [DisposeUpload 0, DeleteUpload ''upload_00''],
     uploads = [''upload_00'' \<mapsto> 0], objects = [upload_00],
     files = [''/d/upload_00'' \<mapsto> ''abcd''], tasks = []\<rparr>"
  by (simp add: example_defs srv_defs Let_def)

lemma last_written_eq:
  "last_written = \<lparr>toDispose = [DisposeUpload 0, DeleteUpload ''upload_00''],
     uploads = [''upload_00'' \<mapsto> 0], objects = [upload_00],
     files = [''/d/upload_00'' \<mapsto> ''abcdef''],
     tasks = [Completed None (Written 0 True Void)]\<rparr>"
  by (simp add: last_written_def two_chunks_eq srv_defs Let_def upload_00_def plain_lib_def)


lemma create_failed_eq:
  "create_failed = \<lparr>toDispose = [DisposeUpload 0, DeleteUpload ''upload_00''],
     uploads = [''upload_00'' \<mapsto> 0], objects = [upload_00],
     files = Map.empty,
     tasks = [Completed (Some ''ENOSPC'') (Written 0 True (UploadId ''upload_00''))]\<rparr>"
  by (simp add: example_defs srv_defs Let_def)

lemma rename_done_eq:
  "rename_done = \<lparr>toDispose = [DisposeUpload 0, DeleteUpload ''upload_00''],
     uploads = [''upload_00'' \<mapsto> 0], objects = [upload_00],
     files = [''/d/a.txt'' \<mapsto> ''abc''],
     tasks = [Completed None (Moved 0 (UploadId ''upload_00''))]\<rparr>"
  by (simp add: example_defs srv_defs Let_def fun_upd_twist)

lemma finalized_eq:
  "finalized = \<lparr>toDispose = [DisposeUpload 0, DeleteUpload ''upload_00''],
     uploads = [''upload_00'' \<mapsto> 0], objects = [upload_00\<lparr>renamed := True\<rparr>],
     files = [''/d/a.txt'' \<mapsto> ''abc''], tasks = []\<rparr>"
  by (simp add: example_defs srv_defs Let_def fun_upd_twist)

subsection \<open>The claims about the server\<close>

text \<open>
  C2, amended: neither a call with the done flag nor \<^verbatim>\<open>close\<close> removes the staging
  record from the registry. An id that has a record keeps one through every turn of
  the server and through every run, and only the arrival of an \<^verbatim>\<open>open\<close> changes the
  registry, by adding the record of the new upload under its id. The registry stays in
  order, from the start of the server on: every id leads to one object, which carries
  this id. No \<^verbatim>\<open>open\<close> and no \<^verbatim>\<open>append\<close> returns before its write, and a call
  with the done flag returns only once its \<^verbatim>\<open>rename\<close> has succeeded: the \<^verbatim>\<open>dispose\<close> of its record has then been replaced, and stays
  replaced. A call whose \<^verbatim>\<open>create\<close>, \<^verbatim>\<open>append\<close> or \<^verbatim>\<open>rename\<close> fails rejects
  with that error and does nothing else: its record stays registered as it is.
\<close>

theorem finalized_record_stays_registered:
  "(uploads s i \<noteq> None \<longrightarrow>
        uploads (snd (step L l s)) i \<noteq> None \<and> uploads (run L ls s) i \<noteq> None)
   \<and> ((\<forall>rnd uri c d. l \<noteq> Arrives (Open rnd uri c d)) \<longrightarrow>
        uploads (snd (step L l s)) = uploads s)
   \<and> uploads (snd (srv_open L rnd uri c d s)) (''upload_'' @ rnd) = Some (length (objects s))
   \<and> (registry_ok s \<and> tasks_ok s \<longrightarrow>
        registry_ok (snd (step L l s)) \<and> tasks_ok (snd (step L l s)))
   \<and> (\<forall>r v. tasks_ok s \<and> k < length (tasks s) \<and> tasks s ! k = Completed None (Moved r v) \<longrightarrow>
        fst (resume k s) = Some (Inr v)
        \<and> renamed (objects (snd (resume k s)) ! r)
        \<and> uploads (snd (resume k s)) = uploads s)
   \<and> fst (srv_open L rnd uri c d s) = None
   \<and> (\<forall>v. fst (srv_append L i c d s) \<noteq> Some (Inr v))
   \<and> (\<forall>r v res v'. k < length (tasks s) \<and> tasks s ! k = Completed res (Written r True v) \<longrightarrow>
        fst (resume k s) \<noteq> Some (Inr v'))
   \<and> (\<forall>code c. k < length (tasks s) \<and> tasks s ! k = Completed (Some code) c \<and> c \<noteq> Swallowed \<longrightarrow>
        resume k s = (Some (Inl (External code)),
                      s\<lparr>tasks := take k (tasks s) @ drop (Suc k) (tasks s)\<rparr>))
   \<and> (\<forall>r. r < length (objects s) \<and> renamed (objects s ! r) \<longrightarrow>
        renamed (objects (snd (step L l s)) ! r))
   \<and> registry_ok (run L ls' empty_server)"
proof (intro conjI)
  show "registry_ok (run L ls' empty_server)"
    using ok_run [OF ok_empty] by blast
  show "uploads s i \<noteq> None \<longrightarrow>
        uploads (snd (step L l s)) i \<noteq> None \<and> uploads (run L ls s) i \<noteq> None"
    by (simp add: uploads_step_mono uploads_run_mono)
  show "(\<forall>rnd uri c d. l \<noteq> Arrives (Open rnd uri c d)) \<longrightarrow>
        uploads (snd (step L l s)) = uploads s"
    by (cases l rule: carries_done.cases)
       (auto simp: uploads_append uploads_close uploads_disk uploads_resume)
  show "uploads (snd (srv_open L rnd uri c d s)) (''upload_'' @ rnd) = Some (length (objects s))"
    by (simp add: uploads_open)
  show "fst (srv_open L rnd uri c d s) = None"
    by (simp add: srv_open_def Let_def)
  show "\<forall>v. fst (srv_append L i c d s) \<noteq> Some (Inr v)"
    by (simp add: srv_append_def split: option.splits)
  show "registry_ok s \<and> tasks_ok s \<longrightarrow>
        registry_ok (snd (step L l s)) \<and> tasks_ok (snd (step L l s))"
    by (simp add: registry_ok_step tasks_ok_step)
  show "\<forall>r v. tasks_ok s \<and> k < length (tasks s) \<and> tasks s ! k = Completed None (Moved r v) \<longrightarrow>
        fst (resume k s) = Some (Inr v)
        \<and> renamed (objects (snd (resume k s)) ! r)
        \<and> uploads (snd (resume k s)) = uploads s"
    by (simp add: resume_moved uploads_resume)
  show "\<forall>r v res v'. k < length (tasks s) \<and> tasks s ! k = Completed res (Written r True v) \<longrightarrow>
        fst (resume k s) \<noteq> Some (Inr v')"
  proof (intro allI impI)
    fix r v res v'
    assume "k < length (tasks s) \<and> tasks s ! k = Completed res (Written r True v)"
    then show "fst (resume k s) \<noteq> Some (Inr v')"
      by (cases res) (simp_all add: resume_def)
  qed
  show "\<forall>code c. k < length (tasks s) \<and> tasks s ! k = Completed (Some code) c \<and> c \<noteq> Swallowed \<longrightarrow>
        resume k s = (Some (Inl (External code)),
                      s\<lparr>tasks := take k (tasks s) @ drop (Suc k) (tasks s)\<rparr>)"
  proof (intro allI impI)
    fix code c
    assume "k < length (tasks s) \<and> tasks s ! k = Completed (Some code) c \<and> c \<noteq> Swallowed"
    then show "resume k s = (Some (Inl (External code)),
                      s\<lparr>tasks := take k (tasks s) @ drop (Suc k) (tasks s)\<rparr>)"
      by (cases c) (simp_all add: resume_def)
  qed
  show "\<forall>r. r < length (objects s) \<and> renamed (objects s ! r) \<longrightarrow>
        renamed (objects (snd (step L l s)) ! r)"
    by (simp add: renamed_step)
qed

theorem finalized_record_stays_registered_witness:
  "uploads rename_done ''upload_00'' = Some 0 \<and> registry_ok rename_done \<and> tasks_ok rename_done
   \<and> tasks rename_done = [Completed None (Moved 0 (UploadId ''upload_00''))]
   \<and> fst (resume 0 rename_done) = Some (Inr (UploadId ''upload_00''))
   \<and> renamed (objects (snd (resume 0 rename_done)) ! 0)
   \<and> uploads (snd (resume 0 rename_done)) = uploads rename_done
   \<and> uploads (run plain_lib [Resumes 0, Arrives (Close ''upload_00'')] rename_done) ''upload_00''
        \<noteq> None
   \<and> tasks last_written = [Completed None (Written 0 True Void)]
   \<and> fst (resume 0 last_written) \<noteq> Some (Inr Void)
   \<and> tasks create_failed = [Completed (Some ''ENOSPC'') (Written 0 True (UploadId ''upload_00''))]
   \<and> resume 0 create_failed = (Some (Inl (External ''ENOSPC'')), create_failed\<lparr>tasks := []\<rparr>)
   \<and> renamed (objects finalized ! 0)
   \<and> renamed (objects (snd (step plain_lib (Arrives (Close ''upload_00'')) finalized)) ! 0)"
proof -
  have ok: "registry_ok rename_done" "tasks_ok rename_done"
    unfolding rename_done_def using ok_run [OF ok_empty] by blast+
  have f: "uploads rename_done ''upload_00'' = Some 0"
    "tasks rename_done = [Completed None (Moved 0 (UploadId ''upload_00''))]"
    "tasks last_written = [Completed None (Written 0 True Void)]"
    "tasks create_failed = [Completed (Some ''ENOSPC'') (Written 0 True (UploadId ''upload_00''))]"
    "renamed (objects finalized ! 0)" "length (objects finalized) = 1"
    by (simp_all add: rename_done_eq last_written_eq create_failed_eq finalized_eq)
  show ?thesis
    using finalized_record_stays_registered
      [where s = rename_done and i = "''upload_00''" and L = plain_lib and l = "Resumes 0"
         and ls = "[Resumes 0, Arrives (Close ''upload_00'')]" and k = 0]
      finalized_record_stays_registered [where s = last_written and k = 0]
      finalized_record_stays_registered [where s = create_failed and k = 0]
      finalized_record_stays_registered
      [where s = finalized and L = plain_lib and l = "Arrives (Close ''upload_00'')"]
      ok f
    by simp
qed

text \<open>\<^verbatim>\<open>open(uri, 'abc', true)\<close> on an empty server writes, renames and returns the id,
  and the registry still holds the record of the upload.\<close>

theorem finalized_record_still_registered:
  "fst (step plain_lib (Resumes 0) (run plain_lib
       [Arrives (Open ''00'' ''/d/a.txt'' ''abc'' True), Disk 0 None, Resumes 0, Disk 0 None]
       empty_server)) = Some (Inr (UploadId ''upload_00''))
   \<and> uploads (run plain_lib
       [Arrives (Open ''00'' ''/d/a.txt'' ''abc'' True), Disk 0 None, Resumes 0, Disk 0 None,
        Resumes 0] empty_server) ''upload_00'' \<noteq> None"
  by (simp add: srv_defs Let_def plain_lib_def empty_server_def)




text \<open>The client does not wait for an \<^verbatim>\<open>append\<close> before it sends the next. When two
  are in flight and the write of the second takes effect first, the destination gets
  the chunks in that order.\<close>

lemma appends_in_flight_are_written_in_any_order:
  "files (run plain_lib
      [Arrives (Open ''00'' ''/d/a.txt'' ''ab'' False), Disk 0 None, Resumes 0,
       Arrives (Append ''upload_00'' ''cd'' False), Arrives (Append ''upload_00'' ''ef'' True),
       Disk 1 None, Disk 0 None, Resumes 0, Resumes 0,
       Disk 0 None, Resumes 0] empty_server) ''/d/a.txt'' = Some ''abefcd''"
  by (simp add: srv_defs Let_def plain_lib_def empty_server_def)

text \<open>
  C4, amended: for every id that has no record in the registry, \<^verbatim>\<open>append\<close> fails with
  the "does not exist" error, at once, and changes neither the registry nor any file,
  nor does it start a call. An id keeps its record once it has been opened, also after
  \<^verbatim>\<open>close\<close> and after a call with the done flag, and \<^verbatim>\<open>append\<close> on an id that has
  a record is not rejected as unknown: it is suspended at its write, and no later turn
  rejects a request with that error.
\<close>

theorem append_unknown_id:
  "(uploads s i = None \<longrightarrow> srv_append L i c d s = (Some (Inl (DoesNotExist i)), s))
   \<and> (uploads s i \<noteq> None \<longrightarrow>
         fst (srv_append L i c d s) = None
       \<and> fst (srv_append L i c d s) \<noteq> Some (Inl (DoesNotExist i)))
   \<and> (\<forall>j. fst (step L (Disk k fail) s) \<noteq> Some (Inl (DoesNotExist j))
          \<and> fst (step L (Resumes k) s) \<noteq> Some (Inl (DoesNotExist j)))
   \<and> (uploads s i \<noteq> None \<longrightarrow>
         uploads (snd (srv_close i s)) i \<noteq> None
       \<and> uploads (snd (srv_append L i c d s)) i \<noteq> None
       \<and> uploads (snd (step L l s)) i \<noteq> None)
   \<and> uploads (snd (srv_open L rnd uri c d s)) (''upload_'' @ rnd) \<noteq> None"
  using uploads_step_mono [of s i L l]
  by (auto simp: srv_append_def uploads_close uploads_open upload_append_def start_def
        resume_not_unknown split: option.splits)

theorem append_unknown_id_witness:
  "uploads (empty_server :: char Server) ''upload_99'' = None
   \<and> srv_append plain_lib ''upload_99'' ''abc'' True empty_server
        = (Some (Inl (DoesNotExist ''upload_99'')), empty_server)
   \<and> uploads staged ''upload_00'' \<noteq> None
   \<and> fst (srv_append plain_lib ''upload_00'' ''def'' False staged) = None
   \<and> uploads (snd (srv_close ''upload_00'' staged)) ''upload_00'' \<noteq> None"
proof -
  have 1: "uploads (empty_server :: char Server) ''upload_99'' = None"
    by (simp add: empty_server_def)
  have 2: "uploads staged ''upload_00'' \<noteq> None"
    by (simp add: staged_eq)
  show ?thesis
    using append_unknown_id [where s = "empty_server :: char Server" and i = "''upload_99''"
        and L = plain_lib and c = "''abc''" and d = True]
      append_unknown_id [where s = staged and i = "''upload_00''" and L = plain_lib
        and c = "''def''" and d = False] 1 2
    by simp
qed

text \<open>\<^verbatim>\<open>append\<close> on an id that was opened and then closed is accepted, and it writes
  the temporary file anew.\<close>

theorem append_after_close_accepted:
  "files (run plain_lib [Arrives (Close ''upload_00''), Disk 0 None, Resumes 0] staged)
       ''/d/upload_00'' = None
   \<and> fst (srv_append plain_lib ''upload_00'' ''def'' False
          (run plain_lib [Arrives (Close ''upload_00''), Disk 0 None, Resumes 0] staged)) = None
   \<and> fst (step plain_lib (Resumes 0) (run plain_lib
          [Arrives (Close ''upload_00''), Disk 0 None, Resumes 0,
           Arrives (Append ''upload_00'' ''def'' False), Disk 0 None] staged)) = Some (Inr Void)
   \<and> files (run plain_lib
          [Arrives (Close ''upload_00''), Disk 0 None, Resumes 0,
           Arrives (Append ''upload_00'' ''def'' False), Disk 0 None, Resumes 0] staged)
       ''/d/upload_00'' = Some ''def''"
  by (simp add: staged_eq srv_defs Let_def upload_00_def plain_lib_def)

text \<open>
  C5, amended: \<^verbatim>\<open>close\<close> never throws and returns at once, and by itself it changes
  neither the registry nor any file. Closing an unknown id or a record whose
  \<^verbatim>\<open>dispose\<close> was replaced by \<^verbatim>\<open>rename\<close> does nothing at all, so the file renamed
  to the destination stays. Closing a record that was not renamed starts one
  \<^verbatim>\<open>unlink\<close> of its temporary file that nobody waits for: the file is gone once that
  call has taken effect, it stays when the call fails, no other file changes, and the
  failure reaches no one. Closing twice in a row starts two of them, the one that
  takes effect second fails on the missing file, and the server ends as after closing
  once.
\<close>

theorem close_idempotent:
  "fst (srv_close i s) = Some (Inr Void)
   \<and> uploads (snd (srv_close i s)) = uploads s
   \<and> objects (snd (srv_close i s)) = objects s
   \<and> files (snd (srv_close i s)) = files s
   \<and> (uploads s i = None \<longrightarrow> snd (srv_close i s) = s)
   \<and> (\<forall>r. uploads s i = Some r \<and> renamed (objects s ! r) \<longrightarrow> snd (srv_close i s) = s)
   \<and> (\<forall>r. uploads s i = Some r \<and> \<not> renamed (objects s ! r) \<longrightarrow>
         snd (srv_close i s)
           = s\<lparr>tasks := tasks s @ [Started (Unlink (uploadPath (objects s ! r))) Swallowed]\<rparr>
       \<and> run L [Arrives (Close i), Arrives (Close i),
                 Disk (length (tasks s)) None, Disk (Suc (length (tasks s))) None,
                 Resumes (length (tasks s)), Resumes (length (tasks s))] s
           = run L [Arrives (Close i), Disk (length (tasks s)) None,
                    Resumes (length (tasks s))] s
       \<and> run L [Arrives (Close i), Arrives (Close i),
                 Disk (Suc (length (tasks s))) None, Disk (length (tasks s)) None,
                 Resumes (length (tasks s)), Resumes (length (tasks s))] s
           = run L [Arrives (Close i), Disk (length (tasks s)) None,
                    Resumes (length (tasks s))] s
       \<and> run L [Arrives (Close i), Disk (length (tasks s)) None, Resumes (length (tasks s))] s
           = s\<lparr>files := (files s)(uploadPath (objects s ! r) := None)\<rparr>)
   \<and> (\<forall>p c code. k < length (tasks s) \<and> tasks s ! k = Started (Unlink p) c \<longrightarrow>
         files (disk k None s) = (files s)(p := None)
       \<and> files (disk k (Some code) s) = files s)
   \<and> (\<forall>res. k < length (tasks s) \<and> tasks s ! k = Completed res Swallowed \<longrightarrow>
         resume k s = (None, s\<lparr>tasks := take k (tasks s) @ drop (Suc k) (tasks s)\<rparr>))"
proof (intro conjI allI impI)
  fix r
  assume "uploads s i = Some r \<and> \<not> renamed (objects s ! r)"
  then have a: "uploads s i = Some r" "\<not> renamed (objects s ! r)" by simp_all
  show "snd (srv_close i s)
           = s\<lparr>tasks := tasks s @ [Started (Unlink (uploadPath (objects s ! r))) Swallowed]\<rparr>"
    using a by (rule close_starts_unlink)
  show "run L [Arrives (Close i), Disk (length (tasks s)) None, Resumes (length (tasks s))] s
           = s\<lparr>files := (files s)(uploadPath (objects s ! r) := None)\<rparr>"
    using a by (rule close_once)
  show "run L [Arrives (Close i), Arrives (Close i),
                 Disk (length (tasks s)) None, Disk (Suc (length (tasks s))) None,
                 Resumes (length (tasks s)), Resumes (length (tasks s))] s
           = run L [Arrives (Close i), Disk (length (tasks s)) None,
                    Resumes (length (tasks s))] s"
    using close_twice(1) [OF a] close_once [OF a] by simp
  show "run L [Arrives (Close i), Arrives (Close i),
                 Disk (Suc (length (tasks s))) None, Disk (length (tasks s)) None,
                 Resumes (length (tasks s)), Resumes (length (tasks s))] s
           = run L [Arrives (Close i), Disk (length (tasks s)) None,
                    Resumes (length (tasks s))] s"
    using close_twice(2) [OF a] close_once [OF a] by simp
next
  fix p c code
  assume "k < length (tasks s) \<and> tasks s ! k = Started (Unlink p) c"
  then show "files (disk k None s) = (files s)(p := None)"
    "files (disk k (Some code) s) = files s"
    using unlink_effect [of k s p c code] by simp_all
next
  fix res
  assume "k < length (tasks s) \<and> tasks s ! k = Completed res Swallowed"
  then show "resume k s = (None, s\<lparr>tasks := take k (tasks s) @ drop (Suc k) (tasks s)\<rparr>)"
    by (simp add: resume_def)
qed (auto simp: srv_close_def upload_dispose_def start_def split: option.splits)

theorem close_idempotent_witness:
  "uploads staged ''upload_00'' = Some 0 \<and> \<not> renamed (objects staged ! 0)
   \<and> fst (srv_close ''upload_00'' staged) = Some (Inr Void)
   \<and> snd (srv_close ''upload_00'' staged)
        = staged\<lparr>tasks := [Started (Unlink ''/d/upload_00'') Swallowed]\<rparr>
   \<and> run plain_lib [Arrives (Close ''upload_00''), Arrives (Close ''upload_00''),
         Disk 0 None, Disk 1 None, Resumes 0, Resumes 0] staged
        = run plain_lib [Arrives (Close ''upload_00''), Disk 0 None, Resumes 0] staged
   \<and> files (run plain_lib [Arrives (Close ''upload_00''), Disk 0 None, Resumes 0] staged)
        ''/d/upload_00'' = None
   \<and> files (disk 0 (Some ''EPERM'') (snd (srv_close ''upload_00'' staged))) = files staged
   \<and> resume 0 (disk 0 None (snd (srv_close ''upload_00'' staged)))
        = (None, staged\<lparr>files := Map.empty\<rparr>)
   \<and> uploads finalized ''upload_00'' = Some 0 \<and> renamed (objects finalized ! 0)
   \<and> files finalized ''/d/a.txt'' = Some ''abc''
   \<and> srv_close ''upload_00'' finalized = (Some (Inr Void), finalized)
   \<and> srv_close ''upload_99'' (empty_server :: char Server) = (Some (Inr Void), empty_server)"
proof -
  let ?closing = "snd (srv_close ''upload_00'' staged)"
  have 1: "uploads staged ''upload_00'' = Some 0" "\<not> renamed (objects staged ! 0)"
    "tasks staged = []" "uploadPath (objects staged ! 0) = ''/d/upload_00''"
    "files staged = [''/d/upload_00'' \<mapsto> ''abc'']"
    by (simp_all add: staged_eq upload_00_def)
  have 2: "uploads finalized ''upload_00'' = Some 0" "renamed (objects finalized ! 0)"
    "files finalized ''/d/a.txt'' = Some ''abc''"
    by (simp_all add: finalized_eq)
  have 3: "uploads (empty_server :: char Server) ''upload_99'' = None"
    by (simp add: empty_server_def)
  have 4: "tasks ?closing = [Started (Unlink ''/d/upload_00'') Swallowed]"
    "files ?closing = files staged"
    by (simp_all add: staged_eq upload_00_def srv_close_def upload_dispose_def start_def)
  have 5: "tasks (disk 0 None ?closing) = [Completed None Swallowed]"
    "disk 0 None ?closing
       = staged\<lparr>files := Map.empty, tasks := [Completed None Swallowed]\<rparr>"
    by (simp_all add: staged_eq upload_00_def srv_close_def upload_dispose_def start_def disk_def)
  show ?thesis
    using 1 2 3 4 5
      close_idempotent [where s = staged and i = "''upload_00''" and L = plain_lib]
      close_idempotent [where s = finalized and i = "''upload_00''"]
      close_idempotent [where s = "empty_server :: char Server" and i = "''upload_99''"]
      close_idempotent [where s = ?closing and k = 0]
      close_idempotent [where s = "disk 0 None ?closing" and k = 0]
    by (simp add: prod_eq_iff)
qed

text \<open>When \<^verbatim>\<open>close\<close> returns on an upload that was not renamed, the temporary file is
  still there; and when its \<^verbatim>\<open>unlink\<close> fails, the file stays and nothing is left to
  run.\<close>

theorem close_returns_before_unlink:
  "fst (step plain_lib (Arrives (Close ''upload_00'')) staged) = Some (Inr Void)
   \<and> files (snd (step plain_lib (Arrives (Close ''upload_00'')) staged)) ''/d/upload_00''
        = Some ''abc''
   \<and> files (run plain_lib [Arrives (Close ''upload_00''), Disk 0 (Some ''EPERM''), Resumes 0]
        staged) ''/d/upload_00'' = Some ''abc''
   \<and> tasks (run plain_lib [Arrives (Close ''upload_00''), Disk 0 (Some ''EPERM''), Resumes 0]
        staged) = []"
  by (simp add: staged_eq srv_defs upload_00_def)

text \<open>An \<^verbatim>\<open>append\<close> that is in flight when \<^verbatim>\<open>close\<close> arrives may be written after the
  \<^verbatim>\<open>unlink\<close> has taken effect: the temporary file is there again when nothing is
  left to run.\<close>

lemma append_in_flight_outlives_close:
  "files (run plain_lib
      [Arrives (Append ''upload_00'' ''def'' False), Arrives (Close ''upload_00''),
       Disk 1 None, Disk 0 None, Resumes 0, Resumes 0] staged) ''/d/upload_00'' = Some ''def''
   \<and> tasks (run plain_lib
      [Arrives (Append ''upload_00'' ''def'' False), Arrives (Close ''upload_00''),
       Disk 1 None, Disk 0 None, Resumes 0, Resumes 0] staged) = []"
  by (simp add: staged_eq srv_defs upload_00_def plain_lib_def)


section \<open>The upload session\<close>

lemma last_failure_append:
  "last_failure (xs @ ys) = (case last_failure ys of Some e \<Rightarrow> Some e | None \<Rightarrow> last_failure xs)"
  by (induction xs) (auto split: option.splits)


text \<open>What one delivery, and what an \<^verbatim>\<open>await\<close>, adds to the session.\<close>

lemma deliver_effect:
  "\<exists>d. trace (deliver tok totl k st) = trace st @ d \<and> list_all quiet d \<and> length d \<le> 1
     \<and> someAppendFailed (deliver tok totl k st)
         = (case last_failure d of None \<Rightarrow> someAppendFailed st | Some e \<Rightarrow> Some e)
     \<and> cur_id (deliver tok totl k st) = cur_id st
     \<and> doneBytes (deliver tok totl k st) = doneBytes st
     \<and> length (promises (deliver tok totl k st)) = length (promises st)"
  by (auto simp: deliver_def Let_def split: option.splits)

lemma fold_deliver_effect:
  "\<exists>d. trace (fold (deliver tok totl) ks st) = trace st @ d \<and> list_all quiet d
     \<and> someAppendFailed (fold (deliver tok totl) ks st)
         = (case last_failure d of None \<Rightarrow> someAppendFailed st | Some e \<Rightarrow> Some e)
     \<and> cur_id (fold (deliver tok totl) ks st) = cur_id st
     \<and> doneBytes (fold (deliver tok totl) ks st) = doneBytes st
     \<and> length (promises (fold (deliver tok totl) ks st)) = length (promises st)"
proof (induction ks arbitrary: st)
  case Nil
  show ?case by (intro exI [of _ "[]"]) simp
next
  case (Cons k ks)
  obtain d1 where d1: "trace (deliver tok totl k st) = trace st @ d1" "list_all quiet d1"
      "someAppendFailed (deliver tok totl k st)
         = (case last_failure d1 of None \<Rightarrow> someAppendFailed st | Some e \<Rightarrow> Some e)"
      "cur_id (deliver tok totl k st) = cur_id st"
      "doneBytes (deliver tok totl k st) = doneBytes st"
      "length (promises (deliver tok totl k st)) = length (promises st)"
    using deliver_effect [of tok totl k st] by blast
  obtain d2 where d2: "trace (fold (deliver tok totl) ks (deliver tok totl k st))
        = trace (deliver tok totl k st) @ d2" "list_all quiet d2"
      "someAppendFailed (fold (deliver tok totl) ks (deliver tok totl k st))
         = (case last_failure d2 of None \<Rightarrow> someAppendFailed (deliver tok totl k st) | Some e \<Rightarrow> Some e)"
      "cur_id (fold (deliver tok totl) ks (deliver tok totl k st)) = cur_id (deliver tok totl k st)"
      "doneBytes (fold (deliver tok totl) ks (deliver tok totl k st)) = doneBytes (deliver tok totl k st)"
      "length (promises (fold (deliver tok totl) ks (deliver tok totl k st)))
         = length (promises (deliver tok totl k st))"
    using Cons.IH [of "deliver tok totl k st"] by blast
  show ?case
    using d1 d2
    by (intro exI [of _ "d1 @ d2"]) (auto simp: last_failure_append split: option.splits)
qed

lemma await_effect:
  "\<exists>d. trace (await w tok totl st) = trace st @ d \<and> list_all quiet d
     \<and> someAppendFailed (await w tok totl st)
         = (case last_failure d of None \<Rightarrow> someAppendFailed st | Some e \<Rightarrow> Some e)
     \<and> cur_id (await w tok totl st) = cur_id st
     \<and> doneBytes (await w tok totl st) = doneBytes st
     \<and> length (promises (await w tok totl st)) = length (promises st)"
  using fold_deliver_effect [of tok totl "arrivals w (clock st)" st]
  by (simp add: await_def)

lemma deliver_no_promises: "promises st = [] \<Longrightarrow> deliver tok totl k st = st"
  by (simp add: deliver_def)

lemma fold_deliver_no_promises: "promises st = [] \<Longrightarrow> fold (deliver tok totl) ks st = st"
  by (induction ks) (simp_all add: deliver_no_promises)

lemma await_no_promises:
  "promises st = [] \<Longrightarrow> await w tok totl st = st\<lparr>clock := Suc (clock st)\<rparr>"
  by (simp add: await_def fold_deliver_no_promises)

lemma readFileSlice_Inl:
  assumes "readFileSlice enc re f rd = Inl e"
    and "rd < file_size f \<or> (file_size f = 0 \<and> rd = 0)"
  shows "re = Some e"
  using assms by (auto simp: readFileSlice_def Let_def split: if_splits option.splits)

lemma quiet_no_Opened: "list_all quiet d \<Longrightarrow> Opened i \<notin> set d"
  by (auto simp: list_all_iff)

lemma iteration_read_rejected:
  assumes "readFileSlice enc (reader_error w (clock st)) (entry_file entry) (readBytes st) = Inl e"
    and "st1 = await w tok totl (st\<lparr>trace := trace st @ [ReadSlice (readBytes st)]\<rparr>)"
  shows "iteration enc w tok totl entry st = (Inl e, st1)"
  using assms by (simp add: iteration_def Let_def)

lemma iteration_append_failed:
  assumes "readFileSlice enc (reader_error w (clock st)) (entry_file entry) (readBytes st) = Inr sl"
    and "st1 = await w tok totl (st\<lparr>trace := trace st @ [ReadSlice (readBytes st)]\<rparr>)"
    and "someAppendFailed st1 = Some e"
  shows "iteration enc w tok totl entry st = (Inl e, st1)"
  using assms by (simp add: iteration_def Let_def)

lemma iteration_cancelled:
  assumes "readFileSlice enc (reader_error w (clock st)) (entry_file entry) (readBytes st) = Inr sl"
    and "st1 = await w tok totl (st\<lparr>trace := trace st @ [ReadSlice (readBytes st)]\<rparr>)"
    and "someAppendFailed st1 = None" and "tok (looks st1)"
  shows "iteration enc w tok totl entry st = (Inl Cancelled, st1\<lparr>looks := Suc (looks st1)\<rparr>)"
  using assms by (simp add: iteration_def Let_def checkCancelled_def)

lemma iteration_appends:
  assumes "readFileSlice enc (reader_error w (clock st)) (entry_file entry) (readBytes st) = Inr sl"
    and "st1 = await w tok totl (st\<lparr>trace := trace st @ [ReadSlice (readBytes st)]\<rparr>)"
    and "someAppendFailed st1 = None" and "\<not> tok (looks st1)"
    and "st3 = st1\<lparr>looks := Suc (looks st1), readBytes := read sl\<rparr>"
    and "cur_id st1 = Some j"
  shows "iteration enc w tok totl entry st =
     (Inr (read sl < file_size (entry_file entry)),
      st3\<lparr>trace := trace st3 @
             [SendAppend j (content sl) (file_size (entry_file entry) \<le> read sl)],
          promises := promises st3 @
             [\<lparr>reply = append_reply w (clock st3), slice_read = read sl, state = Pending\<rparr>]\<rparr>)"
  using assms by (simp add: iteration_def Let_def checkCancelled_def)

lemma iteration_open_rejected:
  assumes "readFileSlice enc (reader_error w (clock st)) (entry_file entry) (readBytes st) = Inr sl"
    and "st1 = await w tok totl (st\<lparr>trace := trace st @ [ReadSlice (readBytes st)]\<rparr>)"
    and "someAppendFailed st1 = None" and "\<not> tok (looks st1)"
    and "st3 = st1\<lparr>looks := Suc (looks st1), readBytes := read sl\<rparr>"
    and "cur_id st1 = None"
    and "st4 = await w tok totl (st3\<lparr>trace := trace st3 @
            [SendOpen (entry_uri entry) (content sl) (file_size (entry_file entry) \<le> read sl)]\<rparr>)"
    and "open_reply w (clock st3) = Inl e"
  shows "iteration enc w tok totl entry st = (Inl e, st4)"
  using assms by (simp add: iteration_def Let_def checkCancelled_def)

lemma iteration_opened_cancelled:
  assumes "readFileSlice enc (reader_error w (clock st)) (entry_file entry) (readBytes st) = Inr sl"
    and "st1 = await w tok totl (st\<lparr>trace := trace st @ [ReadSlice (readBytes st)]\<rparr>)"
    and "someAppendFailed st1 = None" and "\<not> tok (looks st1)"
    and "st3 = st1\<lparr>looks := Suc (looks st1), readBytes := read sl\<rparr>"
    and "cur_id st1 = None"
    and "st4 = await w tok totl (st3\<lparr>trace := trace st3 @
            [SendOpen (entry_uri entry) (content sl) (file_size (entry_file entry) \<le> read sl)]\<rparr>)"
    and "open_reply w (clock st3) = Inr i"
    and "sc = st4\<lparr>cur_id := Some i, trace := trace st4 @ [Opened i]\<rparr>"
    and "tok (looks sc)"
  shows "iteration enc w tok totl entry st = (Inl Cancelled, sc\<lparr>looks := Suc (looks sc)\<rparr>)"
  using assms by (simp add: iteration_def Let_def checkCancelled_def)

lemma iteration_opened:
  assumes "readFileSlice enc (reader_error w (clock st)) (entry_file entry) (readBytes st) = Inr sl"
    and "st1 = await w tok totl (st\<lparr>trace := trace st @ [ReadSlice (readBytes st)]\<rparr>)"
    and "someAppendFailed st1 = None" and "\<not> tok (looks st1)"
    and "st3 = st1\<lparr>looks := Suc (looks st1), readBytes := read sl\<rparr>"
    and "cur_id st1 = None"
    and "st4 = await w tok totl (st3\<lparr>trace := trace st3 @
            [SendOpen (entry_uri entry) (content sl) (file_size (entry_file entry) \<le> read sl)]\<rparr>)"
    and "open_reply w (clock st3) = Inr i"
    and "sc = st4\<lparr>cur_id := Some i, trace := trace st4 @ [Opened i]\<rparr>"
    and "\<not> tok (looks sc)"
  shows "iteration enc w tok totl entry st =
     (Inr (read sl < file_size (entry_file entry)),
      sc\<lparr>looks := Suc (looks sc), trace := trace sc @ [Report (doneBytes sc + read sl) totl]\<rparr>)"
  using assms by (simp add: iteration_def Let_def checkCancelled_def)

lemma throw_ok_no_failure: "last_failure evs = None \<Longrightarrow> throw_ok w e evs"
  unfolding throw_ok_def by (intro conjI exI [of _ evs] exI [of _ "[]"]) simp_all

lemma iteration_effect:
  assumes it: "iteration enc w tok totl entry st = (r, st')"
    and nf: "someAppendFailed st = None"
    and K: "cur_id st = None \<longrightarrow> promises st = []"
    and R: "readBytes st < file_size (entry_file entry)
            \<or> (file_size (entry_file entry) = 0 \<and> readBytes st = 0)"
  shows "\<exists>evs. step_ok w st st' evs
     \<and> (case r of
          Inr again \<Rightarrow> last_failure evs = None \<and> someAppendFailed st' = None
             \<and> (again \<longrightarrow> readBytes st' < file_size (entry_file entry))
        | Inl e \<Rightarrow> throw_ok w e evs)"
proof -
  define sa where "sa = st\<lparr>trace := trace st @ [ReadSlice (readBytes st)]\<rparr>"
  define st1 where "st1 = await w tok totl sa"
  obtain d1 where d1: "trace st1 = trace sa @ d1" "list_all quiet d1"
      "someAppendFailed st1 = (case last_failure d1 of None \<Rightarrow> someAppendFailed sa | Some e \<Rightarrow> Some e)"
      "cur_id st1 = cur_id sa" "doneBytes st1 = doneBytes sa"
      "length (promises st1) = length (promises sa)"
    using await_effect [of w tok totl sa] unfolding st1_def by blast
  have tr1: "trace st1 = trace st @ ReadSlice (readBytes st) # d1"
    using d1(1) by (simp add: sa_def)
  have saf1: "someAppendFailed st1 = last_failure d1"
    using d1(3) nf by (simp add: sa_def split: option.splits)
  have id1: "cur_id st1 = cur_id st" and db1: "doneBytes st1 = doneBytes st"
    using d1(4,5) by (simp_all add: sa_def)
  have K1: "cur_id st = None \<longrightarrow> promises st1 = []"
    using K d1(6) by (auto simp: sa_def)
  have lf1: "last_failure (ReadSlice (readBytes st) # d1) = last_failure d1"
    by (simp split: option.splits)
  have nO1: "\<forall>i. Opened i \<notin> set (ReadSlice (readBytes st) # d1)"
    using quiet_no_Opened [OF d1(2)] by simp
  have base: "step_ok w st st1 (ReadSlice (readBytes st) # d1)"
    using tr1 db1 id1 K1 nO1 by (auto simp: step_ok_def split: option.splits)
  have thr: "throw_ok w e (ReadSlice (readBytes st) # d1)"
    if "last_failure d1 = Some e \<or> last_failure d1 = None \<or> (\<exists>t. reader_error w t = Some e)" for e
  proof -
    have "ReadSlice (readBytes st) # d1 = [ReadSlice (readBytes st)] @ d1
        \<and> last_failure [ReadSlice (readBytes st)] = None \<and> list_all quiet d1"
      using d1(2) by simp
    then have "\<exists>a b. ReadSlice (readBytes st) # d1 = a @ b \<and> last_failure a = None \<and> list_all quiet b"
      by blast
    then show ?thesis using that lf1 by (auto simp: throw_ok_def)
  qed
  show ?thesis
  proof (cases "readFileSlice enc (reader_error w (clock st)) (entry_file entry) (readBytes st)")
    case (Inl e)
    then have r: "r = Inl e" "st' = st1"
      using it iteration_read_rejected [OF Inl, of st1 tok totl] by (simp_all add: st1_def sa_def)
    have "reader_error w (clock st) = Some e"
      using readFileSlice_Inl [OF Inl R] .
    then have "throw_ok w e (ReadSlice (readBytes st) # d1)" by (intro thr) blast
    then show ?thesis using base r by auto
  next
    case rs: (Inr sl)
    note Inr = rs
    show ?thesis
    proof (cases "someAppendFailed st1")
      case (Some e)
      then have r: "r = Inl e" "st' = st1"
        using it iteration_append_failed [OF Inr, of st1 tok totl e] by (simp_all add: st1_def sa_def)
      have "throw_ok w e (ReadSlice (readBytes st) # d1)"
        using Some saf1 by (intro thr) simp
      then show ?thesis using base r by auto
    next
      case None
      then have lfd: "last_failure d1 = None" using saf1 by simp
      show ?thesis
      proof (cases "tok (looks st1)")
        case True
        then have r: "r = Inl Cancelled" "st' = st1\<lparr>looks := Suc (looks st1)\<rparr>"
          using it iteration_cancelled [OF Inr, of st1 tok totl] None by (simp_all add: st1_def sa_def)
        have "throw_ok w Cancelled (ReadSlice (readBytes st) # d1)"
          using lfd by (intro thr) simp
        moreover have "step_ok w st st' (ReadSlice (readBytes st) # d1)"
          using base r(2) by (auto simp: step_ok_def split: option.splits)
        ultimately show ?thesis using r by auto
      next
        case False
        define st3 where "st3 = st1\<lparr>looks := Suc (looks st1), readBytes := read sl\<rparr>"
        show ?thesis
        proof (cases "cur_id st")
          case (Some j)
          let ?ev = "SendAppend j (content sl) (file_size (entry_file entry) \<le> read sl)"
          have r: "r = Inr (read sl < file_size (entry_file entry))"
            "st' = st3\<lparr>trace := trace st3 @ [?ev],
                      promises := promises st3 @ [\<lparr>reply = append_reply w (clock st3),
                          slice_read = read sl, state = Pending\<rparr>]\<rparr>"
            using it iteration_appends [OF Inr, of st1 tok totl st3 j] None False Some id1
            by (simp_all add: st1_def sa_def st3_def)
          let ?evs = "ReadSlice (readBytes st) # d1 @ [?ev]"
          have "trace st' = trace st @ ?evs" "doneBytes st' = doneBytes st"
              "cur_id st' = Some j"
            using tr1 db1 id1 Some by (simp_all add: r(2) st3_def)
          moreover have "\<forall>i. Opened i \<notin> set ?evs"
            using quiet_no_Opened [OF d1(2)] by simp
          ultimately have "step_ok w st st' ?evs"
            using Some by (simp add: step_ok_def)
          moreover have "last_failure ?evs = None"
            using lfd by (simp add: last_failure_append split: option.splits)
          moreover have "someAppendFailed st' = None"
            using None r(2) by (simp add: st3_def)
          moreover have "readBytes st' = read sl" using r(2) by (simp add: st3_def)
          ultimately show ?thesis using r(1) by auto
        next
          case None': None
          then have p1: "promises st1 = []" using K1 by simp
          have d1e: "d1 = []"
          proof -
            have "promises sa = []" using K None' by (simp add: sa_def)
            then have "st1 = sa\<lparr>clock := Suc (clock sa)\<rparr>"
              unfolding st1_def by (rule await_no_promises)
            then have "trace st1 = trace sa" by simp
            then show ?thesis using d1(1) by simp
          qed
          let ?open = "SendOpen (entry_uri entry) (content sl) (file_size (entry_file entry) \<le> read sl)"
          define sb where "sb = st3\<lparr>trace := trace st3 @ [?open]\<rparr>"
          define st4 where "st4 = await w tok totl sb"
          have "promises sb = []" using p1 by (simp add: sb_def st3_def)
          then have st4: "st4 = sb\<lparr>clock := Suc (clock sb)\<rparr>"
            unfolding st4_def by (rule await_no_promises)
          have c1: "cur_id st1 = None" using None' id1 by simp
          have s1: "st1 = await w tok totl (st\<lparr>trace := trace st @ [ReadSlice (readBytes st)]\<rparr>)"
            by (simp add: st1_def sa_def)
          have s4: "st4 = await w tok totl (st3\<lparr>trace := trace st3 @ [?open]\<rparr>)"
            by (simp add: st4_def sb_def)
          show ?thesis
          proof (cases "open_reply w (clock st3)")
            case (Inl e)
            have r: "r = Inl e" "st' = st4"
              using it iteration_open_rejected [OF Inr s1 None False st3_def c1 s4 Inl] by simp_all
            let ?evs = "[ReadSlice (readBytes st), ?open]"
            have "trace st' = trace st @ ?evs" "doneBytes st' = doneBytes st"
                "cur_id st' = None" "promises st' = []"
              using tr1 d1e db1 c1 p1 by (simp_all add: r(2) st4 sb_def st3_def)
            then have "step_ok w st st' ?evs"
              using None' by (simp add: step_ok_def)
            moreover have "throw_ok w e ?evs"
            by (rule throw_ok_no_failure) simp
            ultimately show ?thesis using r(1) by auto
          next
            case (Inr i)
            define sc where "sc = st4\<lparr>cur_id := Some i, trace := trace st4 @ [Opened i]\<rparr>"
            show ?thesis
            proof (cases "tok (looks sc)")
              case True
              have r: "r = Inl Cancelled" "st' = sc\<lparr>looks := Suc (looks sc)\<rparr>"
                using it iteration_opened_cancelled [OF rs s1 None False st3_def c1 s4 Inr sc_def True]
                by simp_all
              let ?evs = "[ReadSlice (readBytes st), ?open, Opened i]"
              have "trace st' = trace st @ ?evs" "doneBytes st' = doneBytes st"
                  "cur_id st' = Some i"
                using tr1 d1e db1 c1 p1 by (simp_all add: r(2) sc_def st4 sb_def st3_def)
              then have "step_ok w st st' ?evs"
                using None' by (auto simp: step_ok_def)
              moreover have "throw_ok w Cancelled ?evs"
              by (rule throw_ok_no_failure) simp
              ultimately show ?thesis using r(1) by auto
            next
              case False': False
              have r: "r = Inr (read sl < file_size (entry_file entry))"
                "st' = sc\<lparr>looks := Suc (looks sc),
                     trace := trace sc @ [Report (doneBytes sc + read sl) totl]\<rparr>"
                using it iteration_opened [OF rs s1 None False st3_def c1 s4 Inr sc_def False']
                by simp_all
              let ?evs = "[ReadSlice (readBytes st), ?open, Opened i, Report (doneBytes sc + read sl) totl]"
              have db: "doneBytes sc = doneBytes st"
                using db1 by (simp add: sc_def st4 sb_def st3_def)
              have "trace st' = trace st @ ?evs" "doneBytes st' = doneBytes st"
                  "cur_id st' = Some i"
                using tr1 d1e db1 c1 p1 by (simp_all add: r(2) sc_def st4 sb_def st3_def)
              then have "step_ok w st st' ?evs"
                using None' by (auto simp: step_ok_def)
              moreover have "last_failure ?evs = None" by simp
              moreover have "someAppendFailed st' = None"
                using None by (simp add: r(2) sc_def st4 sb_def st3_def)
              moreover have "readBytes st' = read sl"
                by (simp add: r(2) sc_def st4 sb_def st3_def)
              ultimately show ?thesis using r(1) by auto
            qed
          qed
        qed
      qed
    qed
  qed
qed

lemma step_ok_trans:
  assumes "step_ok w st st1 evs1" and "step_ok w st1 st' evs2"
  shows "step_ok w st st' (evs1 @ evs2)"
  using assms unfolding step_ok_def
  by (cases "cur_id st"; cases "cur_id st1") auto

lemma throw_ok_prepend:
  assumes "last_failure evs1 = None" and "throw_ok w e evs2"
  shows "throw_ok w e (evs1 @ evs2)"
proof -
  obtain a b where ab: "evs2 = a @ b" "last_failure a = None" "list_all quiet b"
    using assms(2) unfolding throw_ok_def by blast
  have 1: "evs1 @ evs2 = (evs1 @ a) @ b \<and> last_failure (evs1 @ a) = None \<and> list_all quiet b"
    using ab assms(1) by (simp add: last_failure_append)
  have 2: "last_failure (evs1 @ evs2) = last_failure evs2"
    using assms(1) by (simp add: last_failure_append split: option.splits)
  show ?thesis
    unfolding throw_ok_def
  proof (intro conjI)
    show "\<exists>a b. evs1 @ evs2 = a @ b \<and> last_failure a = None \<and> list_all quiet b"
      using 1 by blast
    show "last_failure (evs1 @ evs2) \<noteq> None \<longrightarrow>
        last_failure (evs1 @ evs2) = Some e \<or> (\<exists>t. reader_error w t = Some e)"
      using assms(2) 2 unfolding throw_ok_def by simp
  qed
qed

lemma throw_ok_append_quiet:
  assumes "throw_ok w e evs" and "list_all quiet d" and "last_failure d = None"
  shows "throw_ok w e (evs @ d)"
proof -
  obtain a b where ab: "evs = a @ b" "last_failure a = None" "list_all quiet b"
    using assms(1) unfolding throw_ok_def by blast
  have 1: "evs @ d = a @ (b @ d) \<and> last_failure a = None \<and> list_all quiet (b @ d)"
    using ab assms(2) by simp
  have 2: "last_failure (evs @ d) = last_failure evs"
    using assms(3) by (simp add: last_failure_append)
  show ?thesis
    unfolding throw_ok_def
  proof (intro conjI)
    show "\<exists>a b. evs @ d = a @ b \<and> last_failure a = None \<and> list_all quiet b"
      using 1 by blast
    show "last_failure (evs @ d) \<noteq> None \<longrightarrow>
        last_failure (evs @ d) = Some e \<or> (\<exists>t. reader_error w t = Some e)"
      using assms(1) 2 unfolding throw_ok_def by simp
  qed
qed

lemma transfer_effect:
  assumes "transfer enc w tok totl entry st = (r, st')"
    and "someAppendFailed st = None"
    and "cur_id st = None \<longrightarrow> promises st = []"
    and "readBytes st < file_size (entry_file entry)
          \<or> (file_size (entry_file entry) = 0 \<and> readBytes st = 0)"
  shows "\<exists>evs. step_ok w st st' evs
     \<and> (case r of
          Inr u \<Rightarrow> last_failure evs = None \<and> someAppendFailed st' = None
        | Inl e \<Rightarrow> throw_ok w e evs)"
  using assms
proof (induction enc w tok totl entry st arbitrary: r st' rule: transfer.induct)
  case (1 enc w tok totl entry st)
  obtain r1 st1 where it: "iteration enc w tok totl entry st = (r1, st1)"
    by (cases "iteration enc w tok totl entry st")
  obtain evs1 where e1: "step_ok w st st1 evs1"
      "case r1 of
          Inr again \<Rightarrow> last_failure evs1 = None \<and> someAppendFailed st1 = None
             \<and> (again \<longrightarrow> readBytes st1 < file_size (entry_file entry))
        | Inl e \<Rightarrow> throw_ok w e evs1"
    using iteration_effect [OF it "1.prems"(2,3,4)] by blast
  show ?case
  proof (cases r1)
    case (Inl e)
    then have "r = Inl e" "st' = st1"
      using "1.prems"(1) it by (simp_all add: transfer.simps)
    then show ?thesis using e1 Inl by auto
  next
    case (Inr again)
    show ?thesis
    proof (cases again)
      case False
      then have "r = Inr ()" "st' = st1"
        using "1.prems"(1) it Inr by (simp_all add: transfer.simps)
      then show ?thesis using e1 Inr by auto
    next
      case True
      then have tr: "transfer enc w tok totl entry st1 = (r, st')"
        using "1.prems"(1) it Inr by (simp add: transfer.simps)
      have f1: "last_failure evs1 = None" "someAppendFailed st1 = None"
          "readBytes st1 < file_size (entry_file entry)"
        using e1(2) Inr True by simp_all
      have k1: "cur_id st1 = None \<longrightarrow> promises st1 = []"
        using e1(1) by (simp add: step_ok_def)
      from "1.IH" [OF it [symmetric] Inr True tr f1(2) k1] f1(3)
      obtain evs2 where e2: "step_ok w st1 st' evs2"
          "case r of Inr u \<Rightarrow> last_failure evs2 = None \<and> someAppendFailed st' = None
             | Inl e \<Rightarrow> throw_ok w e evs2"
        by blast
      have "step_ok w st st' (evs1 @ evs2)"
        using e1(1) e2(1) by (rule step_ok_trans)
      moreover have "case r of Inr u \<Rightarrow> last_failure (evs1 @ evs2) = None \<and> someAppendFailed st' = None
             | Inl e \<Rightarrow> throw_ok w e (evs1 @ evs2)"
        using e2(2) f1(1) by (auto simp: last_failure_append throw_ok_prepend split: sum.splits)
      ultimately show ?thesis by blast
    qed
  qed
qed

lemma first_rejected_update:
  "first_rejected ps = None \<Longrightarrow> k < length ps \<Longrightarrow>
   first_rejected (ps[k := p]) = (case state p of RejectedWith e \<Rightarrow> Some e | _ \<Rightarrow> None)"
proof (induction ps arbitrary: k)
  case Nil
  then show ?case by simp
next
  case (Cons q ps)
  then show ?case
    by (cases k) (auto split: settled.splits)
qed

lemma deliver_detects_failure:
  assumes "first_rejected (promises st) = None"
    and "trace (deliver tok totl k st) = trace st @ d" and "last_failure d = Some e"
  shows "first_rejected (promises (deliver tok totl k st)) = Some e"
proof (cases "k < length (promises st) \<and> state (promises st ! k) = Pending")
  case False
  then have "deliver tok totl k st = st" by (auto simp: deliver_def)
  then show ?thesis using assms by simp
next
  case True
  show ?thesis
  proof (cases "reply (promises st ! k)")
    case None
    then have "d = [] \<or> (\<exists>a b. d = [Report a b])"
      using True assms(2) by (auto simp: deliver_def Let_def split: if_splits)
    then show ?thesis using assms(3) by auto
  next
    case (Some x)
    then have "d = [AppendFailed x]"
      using True assms(2) by (auto simp: deliver_def Let_def)
    then have "x = e" using assms(3) by simp
    then show ?thesis
      using True Some assms(1) by (simp add: deliver_def Let_def first_rejected_update)
  qed
qed

lemma await_all_effect:
  assumes "await_all tok totl ks st = (r, st')"
  shows "\<exists>d. trace st' = trace st @ d \<and> list_all quiet d
     \<and> cur_id st' = cur_id st \<and> doneBytes st' = doneBytes st
     \<and> length (promises st') = length (promises st)
     \<and> (case last_failure d of None \<Rightarrow> True | Some e \<Rightarrow> r = Some (Inl e))"
  using assms
proof (induction ks arbitrary: st)
  case Nil
  then have "st' = st"
    by (auto split: option.splits if_splits)
  then show ?case by (intro exI [of _ "[]"]) simp
next
  case (Cons k ks)
  show ?case
  proof (cases "first_rejected (promises st) = None
                \<and> \<not> list_all (\<lambda>p. state p = Fulfilled) (promises st)")
    case False
    then have "st' = st"
      using Cons.prems by (auto split: option.splits if_splits)
    then show ?thesis by (intro exI [of _ "[]"]) simp
  next
    case True
    define s1 where "s1 = deliver tok totl k st"
    have rec: "await_all tok totl ks s1 = (r, st')"
      using Cons.prems True by (simp add: s1_def)
    obtain d1 where d1: "trace s1 = trace st @ d1" "list_all quiet d1" "length d1 \<le> 1"
        "cur_id s1 = cur_id st" "doneBytes s1 = doneBytes st"
        "length (promises s1) = length (promises st)"
      using deliver_effect [of tok totl k st] unfolding s1_def by blast
    show ?thesis
    proof (cases "last_failure d1")
      case None
      obtain d2 where d2: "trace st' = trace s1 @ d2" "list_all quiet d2"
          "cur_id st' = cur_id s1" "doneBytes st' = doneBytes s1"
          "length (promises st') = length (promises s1)"
          "case last_failure d2 of None \<Rightarrow> True | Some e \<Rightarrow> r = Some (Inl e)"
        using Cons.IH [OF rec] by blast
      have "case last_failure (d1 @ d2) of None \<Rightarrow> True | Some e \<Rightarrow> r = Some (Inl e)"
        using d2(6) None by (simp add: last_failure_append split: option.splits)
      then show ?thesis
        using d1 d2 by (intro exI [of _ "d1 @ d2"]) simp
    next
      case (Some e)
      have "first_rejected (promises s1) = Some e"
        using deliver_detects_failure [of st tok totl k d1 e] True d1(1) Some
        by (simp add: s1_def)
      then have "r = Some (Inl e)" "st' = s1"
        using rec by (cases ks; simp)+
      then show ?thesis
        using d1 Some by (intro exI [of _ d1]) simp
    qed
  qed
qed

lemma try_block_effect:
  assumes tb: "try_block enc w tok totl entry st = (r, st')"
    and nf: "someAppendFailed st = None"
    and K: "cur_id st = None" "promises st = []"
    and R: "readBytes st = 0"
  shows "\<exists>evs. trace st' = trace st @ evs
     \<and> (\<forall>i. (Opened i \<in> set evs) = (cur_id st' = Some i))
     \<and> (case r of
          Some (Inl e) \<Rightarrow> throw_ok w e evs
        | _ \<Rightarrow> last_failure evs = None)"
proof -
  obtain r1 st1 where t: "transfer enc w tok totl entry st = (r1, st1)"
    by (cases "transfer enc w tok totl entry st")
  have R': "readBytes st < file_size (entry_file entry)
          \<or> (file_size (entry_file entry) = 0 \<and> readBytes st = 0)"
    using R by (auto simp: file_size_def)
  obtain evs1 where e1: "step_ok w st st1 evs1"
      "case r1 of Inr u \<Rightarrow> last_failure evs1 = None \<and> someAppendFailed st1 = None
        | Inl e \<Rightarrow> throw_ok w e evs1"
    using transfer_effect [OF t nf _ R'] K by blast
  have tr1: "trace st1 = trace st @ evs1"
    and op1: "\<forall>i. (Opened i \<in> set evs1) = (cur_id st1 = Some i)"
    using e1(1) K(1) by (simp_all add: step_ok_def)
  show ?thesis
  proof (cases r1)
    case (Inl e)
    then have "r = Some (Inl e)" "st' = st1"
      using tb t by (simp_all add: try_block_def)
    then show ?thesis using tr1 op1 e1(2) Inl by auto
  next
    case (Inr u)
    then have f1: "last_failure evs1 = None" using e1(2) by simp
    obtain r2 st2 where a: "await_all tok totl (arrivals w (clock st1)) st1 = (r2, st2)"
      by (cases "await_all tok totl (arrivals w (clock st1)) st1")
    obtain d where d: "trace st2 = trace st1 @ d" "list_all quiet d" "cur_id st2 = cur_id st1"
        "case last_failure d of None \<Rightarrow> True | Some e \<Rightarrow> r2 = Some (Inl e)"
      using await_all_effect [OF a] by blast
    have op2: "\<forall>i. (Opened i \<in> set (evs1 @ d)) = (cur_id st2 = Some i)"
      using op1 d(3) quiet_no_Opened [OF d(2)] by auto
    show ?thesis
    proof (cases r2)
      case None
      then have r: "r = None" "st' = st2\<lparr>clock := Suc (clock st2)\<rparr>"
        using tb t Inr a by (simp_all add: try_block_def)
      have "last_failure d = None" using d(4) None by (auto split: option.splits)
      then have "last_failure (evs1 @ d) = None" using f1 by (simp add: last_failure_append)
      moreover have "trace st' = trace st @ (evs1 @ d)" using r(2) tr1 d(1) by simp
      moreover have "\<forall>i. (Opened i \<in> set (evs1 @ d)) = (cur_id st' = Some i)"
        using op2 r(2) by simp
      ultimately show ?thesis using r(1) by (intro exI [of _ "evs1 @ d"]) simp
    next
      case (Some x)
      show ?thesis
      proof (cases x)
        case (Inl e)
        then have r: "r = Some (Inl e)" "st' = st2\<lparr>clock := Suc (clock st2)\<rparr>"
          using tb t Inr a Some by (simp_all add: try_block_def)
        have "throw_ok w e d"
          unfolding throw_ok_def
        proof (intro conjI)
          have "d = [] @ d \<and> last_failure [] = None \<and> list_all quiet d" using d(2) by simp
          then show "\<exists>a b. d = a @ b \<and> last_failure a = None \<and> list_all quiet b" by blast
          show "last_failure d \<noteq> None \<longrightarrow>
              last_failure d = Some e \<or> (\<exists>t. reader_error w t = Some e)"
            using d(4) Some Inl by (auto split: option.splits)
        qed
        then have "throw_ok w e (evs1 @ d)" using f1 throw_ok_prepend [of evs1 w e d] by simp
        moreover have "trace st' = trace st @ (evs1 @ d)" using r(2) tr1 d(1) by simp
        moreover have "\<forall>i. (Opened i \<in> set (evs1 @ d)) = (cur_id st' = Some i)"
          using op2 r(2) by simp
        ultimately show ?thesis using r(1) by (intro exI [of _ "evs1 @ d"]) simp
      next
        case (Inr v)
        let ?rep = "Report (doneBytes st2 + file_size (entry_file entry)) totl"
        have r: "r = Some (Inr ())"
          "st' = st2\<lparr>clock := Suc (clock st2),
                    doneBytes := doneBytes st2 + file_size (entry_file entry),
                    trace := trace st2 @ [?rep]\<rparr>"
          using tb t \<open>r1 = Inr u\<close> a Some Inr by (simp_all add: try_block_def)
        have "last_failure d = None" using d(4) Some Inr by (auto split: option.splits)
        then have "last_failure (evs1 @ d @ [?rep]) = None"
          using f1 by (simp add: last_failure_append)
        moreover have "trace st' = trace st @ (evs1 @ d @ [?rep])" using r(2) tr1 d(1) by simp
        moreover have "\<forall>i. (Opened i \<in> set (evs1 @ d @ [?rep])) = (cur_id st' = Some i)"
          using op2 r(2) by simp
        ultimately show ?thesis using r(1) by (intro exI [of _ "evs1 @ d @ [?rep]"]) simp
      qed
    qed
  qed
qed

lemma uploadEntry_effect:
  fixes st :: "'u session"
  assumes ue: "uploadEntry enc w tok totl entry st = (r, st')"
  shows "\<exists>evs. trace st' = trace st @ evs
     \<and> (case r of
          Some (Inl e) \<Rightarrow> throw_ok w e evs \<and> (\<forall>i. Opened i \<in> set evs \<longrightarrow> last evs = SendClose i)
        | _ \<Rightarrow> last_failure evs = None)"
proof -
  let ?rep = "Report (doneBytes st) totl"
  define s0 where "s0 = st\<lparr>trace := trace st @ [?rep],
                  cur_id := None, readBytes := 0, someAppendFailed := None, promises := []\<rparr>"
  obtain r1 st1 where tb: "try_block enc w tok totl entry s0 = (r1, st1)"
    by (cases "try_block enc w tok totl entry s0")
  obtain evs1 where e1: "trace st1 = trace s0 @ evs1"
      "\<forall>i. (Opened i \<in> set evs1) = (cur_id st1 = Some i)"
      "case r1 of Some (Inl e) \<Rightarrow> throw_ok w e evs1 | _ \<Rightarrow> last_failure evs1 = None"
    using try_block_effect [OF tb] by (auto simp: s0_def)
  have tr1: "trace st1 = trace st @ ?rep # evs1" using e1(1) by (simp add: s0_def)
  show ?thesis
  proof (cases r1)
    case None
    then have "r = None" "st' = st1"
      using ue tb by (simp_all add: uploadEntry_def flip: s0_def)
    moreover have "last_failure (?rep # evs1) = None" using e1(3) None by simp
    ultimately show ?thesis using tr1 by (intro exI [of _ "?rep # evs1"]) simp
  next
    case (Some x)
    define fin :: "'u event list" where "fin = (case cur_id st1 of Some i \<Rightarrow> [SendClose i] | None \<Rightarrow> [])"
    have r: "r = Some x" "trace st' = trace st @ ?rep # evs1 @ fin"
      using ue tb Some tr1 by (auto simp: uploadEntry_def fin_def simp flip: s0_def split: option.splits)
    have qf: "list_all quiet fin" "last_failure fin = None"
      by (simp_all add: fin_def split: option.splits)
    show ?thesis
    proof (cases x)
      case (Inr u)
      then have "last_failure (?rep # evs1 @ fin) = None"
        using e1(3) Some qf(2) by (simp add: last_failure_append)
      then show ?thesis using r Inr by (intro exI [of _ "?rep # evs1 @ fin"]) simp
    next
      case (Inl e)
      then have "throw_ok w e evs1" using e1(3) Some by simp
      then have "throw_ok w e (evs1 @ fin)" using qf by (rule throw_ok_append_quiet)
      then have t: "throw_ok w e (?rep # evs1 @ fin)"
        using throw_ok_prepend [of "[?rep]" w e "evs1 @ fin"] by simp
      have "\<forall>i. Opened i \<in> set (?rep # evs1 @ fin) \<longrightarrow> last (?rep # evs1 @ fin) = SendClose i"
        using e1(2) by (auto simp: fin_def split: option.splits)
      then show ?thesis using r Inl t by (intro exI [of _ "?rep # evs1 @ fin"]) simp
    qed
  qed
qed




lemma uploadEntries_append:
  "uploadEntries enc w tok totl (es1 @ es2) st =
     (case uploadEntries enc w tok totl es1 st of
        (Some (Inr u), st1) \<Rightarrow> uploadEntries enc w tok totl es2 st1
      | (r, st1) \<Rightarrow> (r, st1))"
  by (induction es1 arbitrary: st) (auto split: prod.splits option.splits sum.splits)

lemmas example_runs = plain_def never_def at_second_look_def single_def a_then_b_def

lemma doUpload_uploaded_empty:
  "fst (doUpload enc w ctx) = Resolved r \<Longrightarrow> uploaded r = []"
  by (auto simp: doUpload_def Let_def split: if_splits prod.splits option.splits sum.splits)

lemmas run_defs = doUpload_def initial_session_def uploadEntry_def try_block_def transfer.simps
  iteration_def readFileSlice_def file_size_def await_def checkCancelled_def deliver_def Let_def
  blob_slice_def maxChunkSize_def

text \<open>
  C1: a single empty file, every read and call succeeding and no cancellation. The
  call resolves, after \<^verbatim>\<open>open(uri, '', true)\<close> and \<^verbatim>\<open>close(id)\<close>, with an \<^verbatim>\<open>uploaded\<close>
  list that is empty: \<^verbatim>\<open>doUpload\<close> returns the \<^verbatim>\<open>result\<close> it created at the start
  and never adds a URI to it.
\<close>

theorem doUpload_empty_file_reports_no_upload:
  "doUpload plain calm (single empty_txt ''/d/empty.txt'')
   = (Resolved \<lparr>uploaded = []\<rparr>,
      [Report 0 0, ReadSlice 0, SendOpen ''/d/empty.txt'' [] True, Opened ''upload_00'',
       Report 0 0, Report 0 0, SendClose ''upload_00'', Report 0 0])"
  by (simp add: run_defs example_runs calm_def empty_txt_def)




text \<open>
  C7: when the entries before \<open>entry\<close> have been transferred and the pass for
  \<open>entry\<close> throws \<open>e\<close> after its \<^verbatim>\<open>open\<close> resolved with \<open>i\<close>, the last thing
  the pass does is \<^verbatim>\<open>close(i)\<close>, and the call rejects with \<open>e\<close> on a trace that
  ends there: nothing is read or sent for the remaining entries.
\<close>

theorem close_fires_on_abnormal_exit:
  assumes "entries ctx = before @ entry # rest"
    and "uploadEntries enc w (token ctx) (totalSize ctx) before (initial_session ctx)
           = (Some (Inr ()), st)"
    and "uploadEntry enc w (token ctx) (totalSize ctx) entry st = (Some (Inl e), st')"
    and "trace st' = trace st @ evs" and "Opened i \<in> set evs"
  shows "last evs = SendClose i \<and> doUpload enc w ctx = (Rejected e, trace st @ evs)"
proof -
  obtain evs' where e': "trace st' = trace st @ evs'"
      "\<forall>i. Opened i \<in> set evs' \<longrightarrow> last evs' = SendClose i"
    using uploadEntry_effect [OF assms(3)] by auto
  have "evs' = evs" using e'(1) assms(4) by simp
  then have 1: "last evs = SendClose i" using e'(2) assms(5) by simp
  have "uploadEntries enc w (token ctx) (totalSize ctx) (entries ctx) (initial_session ctx)
      = (Some (Inl e), st')"
    using assms(1,2,3) by (simp add: uploadEntries_append)
  then have 2: "doUpload enc w ctx = (Rejected e, trace st @ evs)"
    using assms(1,4) by (simp add: doUpload_def Let_def)
  show ?thesis using 1 2 by simp
qed

theorem close_fires_on_abnormal_exit_witness:
  "doUpload plain calm a_then_b
   = (Rejected Cancelled,
      [Report 0 5, ReadSlice 0, SendOpen ''/d/a.txt'' ''abc'' True, Opened ''upload_00'',
       SendClose ''upload_00''])
   \<and> last [Report 0 5, ReadSlice 0, SendOpen ''/d/a.txt'' ''abc'' True, Opened ''upload_00'',
       SendClose ''upload_00''] = SendClose ''upload_00''"
proof -
  let ?a = "\<lparr>entry_file = a_txt, entry_uri = ''/d/a.txt''\<rparr>"
  let ?b = "\<lparr>entry_file = b_txt, entry_uri = ''/d/b.txt''\<rparr>"
  let ?evs = "[Report 0 5, ReadSlice 0, SendOpen ''/d/a.txt'' ''abc'' True, Opened ''upload_00'',
       SendClose ''upload_00'']"
  let ?st' = "\<lparr>clock = 2, looks = 2, trace = ?evs, doneBytes = 0, cur_id = Some ''upload_00'',
       readBytes = 3, someAppendFailed = None, promises = []\<rparr>"
  have 1: "entries a_then_b = [] @ ?a # [?b]" by (simp add: a_then_b_def)
  have 2: "uploadEntries plain calm (token a_then_b) (totalSize a_then_b) []
      (initial_session a_then_b) = (Some (Inr ()), initial_session a_then_b)" by simp
  have 3: "uploadEntry plain calm (token a_then_b) (totalSize a_then_b) ?a
      (initial_session a_then_b) = (Some (Inl Cancelled), ?st')"
    by (simp add: run_defs example_runs calm_def a_txt_def)
  have 4: "trace ?st' = trace (initial_session a_then_b) @ ?evs"
    by (simp add: initial_session_def)
  have 5: "Opened ''upload_00'' \<in> set ?evs" by simp
  from close_fires_on_abnormal_exit [OF 1 2 3 4 5]
  show ?thesis by (simp add: initial_session_def)
qed

end
